theory Spec2Isabelle
  imports Main
begin

section \<open>Data model (src/src/utils/bookmarkParser.ts)\<close>

text \<open>
  The interfaces \<^verbatim>\<open>Bookmark\<close>, \<^verbatim>\<open>Folder\<close> and \<^verbatim>\<open>BookmarkLibrary\<close>. An optional field
  (\<^verbatim>\<open>addDate?: string\<close>) is an \<open>option\<close>, \<open>None\<close> standing for \<^verbatim>\<open>undefined\<close>. The fields
  \<^verbatim>\<open>id\<close> and \<^verbatim>\<open>name\<close> carry a prefix, since \<open>id\<close> is a constant of HOL.
\<close>

record Bookmark =
  b_id :: string
  title :: string
  url :: string
  addDate :: "string option"
  icon :: "string option"
  tags :: "string list option"
  folder :: "string option"

record Folder =
  f_id :: string
  f_name :: string
  parentId :: "string option"

record BookmarkLibrary =
  bookmarks :: "Bookmark list"
  folders :: "Folder list"

text \<open>
  JavaScript truthiness of a \<^verbatim>\<open>string | undefined\<close>: \<^verbatim>\<open>undefined\<close> and the empty string
  are falsy, every other string is truthy.
\<close>

fun truthy :: "string option \<Rightarrow> bool" where
  "truthy None = False"
| "truthy (Some s) = (s \<noteq> [])"

section \<open>Applying a proposal (applySuggestion in the App component)\<close>

text \<open>
  The suggestion returned by the suggestion service:
  \<^verbatim>\<open>{ folders: [{path, description}], assignments: [{bookmarkId, folderPath}], reasoning }\<close>.
\<close>

record ProposalFolder =
  path :: string
  description :: string

record Assignment =
  bookmarkId :: string
  folderPath :: string

record Proposal =
  p_folders :: "ProposalFolder list"
  assignments :: "Assignment list"
  reasoning :: string

text \<open>
  \<^verbatim>\<open>String.prototype.split(sep)\<close> for a one-character separator: the result is never empty,
  \<^verbatim>\<open>"".split('/')\<close> is \<^verbatim>\<open>[""]\<close> and \<^verbatim>\<open>"A//B".split('/')\<close> is \<^verbatim>\<open>["A", "", "B"]\<close>.
\<close>

fun split :: "char \<Rightarrow> string \<Rightarrow> string list" where
  "split c [] = [[]]"
| "split c (x # xs) =
     (if x = c then [] # split c xs
      else (case split c xs of [] \<Rightarrow> [[x]] | y # ys \<Rightarrow> (x # y) # ys))"

text \<open>
  The state of the two nested \<^verbatim>\<open>forEach\<close> loops of the path resolver: the array
  \<^verbatim>\<open>newFolders\<close>, the \<^verbatim>\<open>Map\<close> \<^verbatim>\<open>pathMap\<close>, and the number of identifiers drawn so far.
  \<^verbatim>\<open>Math.random().toString(36).substr(2, 9)\<close> is the next element of a sequence
  \<open>rnd :: nat \<Rightarrow> string\<close> that the environment supplies; nothing is assumed of it.
\<close>

record resolver =
  newFolders :: "Folder list"
  pathMap :: "string \<rightharpoonup> string"
  drawn :: nat

text \<open>
  The body of \<^verbatim>\<open>parts.forEach\<close>. The locals \<^verbatim>\<open>currentParentId\<close> and \<^verbatim>\<open>currentPath\<close> of
  the enclosing callback are threaded through. \<^verbatim>\<open>currentPath ? `${currentPath}/${part}` : part\<close>
  tests the truthiness of \<^verbatim>\<open>currentPath\<close>, so an empty accumulated path starts afresh.
\<close>

definition resolvePart ::
  "(nat \<Rightarrow> string) \<Rightarrow> resolver \<times> string option \<times> string \<Rightarrow> string
     \<Rightarrow> resolver \<times> string option \<times> string" where
  "resolvePart rnd acc part =
     (case acc of (r, currentParentId, currentPath) \<Rightarrow>
        let currentPath' = (if currentPath \<noteq> [] then currentPath @ ''/'' @ part else part);
            r' = (if pathMap r currentPath' = None
                  then let folderId = rnd (drawn r)
                       in r\<lparr>newFolders := newFolders r @
                                [\<lparr>f_id = folderId, f_name = part, parentId = currentParentId\<rparr>],
                            pathMap := (pathMap r)(currentPath' \<mapsto> folderId),
                            drawn := Suc (drawn r)\<rparr>
                  else r)
        in (r', pathMap r' currentPath', currentPath'))"

text \<open>The body of \<^verbatim>\<open>suggestion.folders.forEach\<close>, for one proposal folder of path \<open>p\<close>.\<close>

definition resolvePath :: "(nat \<Rightarrow> string) \<Rightarrow> resolver \<Rightarrow> string \<Rightarrow> resolver" where
  "resolvePath rnd r p = fst (foldl (resolvePart rnd) (r, None, []) (split CHR ''/'' p))"

definition resolvePaths :: "(nat \<Rightarrow> string) \<Rightarrow> string list \<Rightarrow> resolver" where
  "resolvePaths rnd ps =
     foldl (resolvePath rnd) \<lparr>newFolders = [], pathMap = Map.empty, drawn = 0\<rparr> ps"

text \<open>
  \<^verbatim>\<open>updatedBookmarks.findIndex(b => b.id === a.bookmarkId)\<close>: the first index whose bookmark
  has that id, \<open>None\<close> for \<^verbatim>\<open>-1\<close>.
\<close>

fun findIndex :: "('a \<Rightarrow> bool) \<Rightarrow> 'a list \<Rightarrow> nat option" where
  "findIndex P [] = None"
| "findIndex P (x # xs) =
     (if P x then Some 0 else map_option Suc (findIndex P xs))"

text \<open>The body of \<^verbatim>\<open>suggestion.assignments.forEach\<close>; \<^verbatim>\<open>if (folderId)\<close> is a truthiness test.\<close>

definition applyAssignment ::
  "(string \<rightharpoonup> string) \<Rightarrow> Bookmark list \<Rightarrow> Assignment \<Rightarrow> Bookmark list" where
  "applyAssignment pm updatedBookmarks a =
     (let folderId = pm (folderPath a) in
      if truthy folderId then
        (case findIndex (\<lambda>b. b_id b = bookmarkId a) updatedBookmarks of
           None \<Rightarrow> updatedBookmarks
         | Some index \<Rightarrow>
             updatedBookmarks[index := (updatedBookmarks ! index)\<lparr>folder := folderId\<rparr>])
      else updatedBookmarks)"

text \<open>
  \<^verbatim>\<open>applySuggestion\<close> reads the component state \<^verbatim>\<open>suggestion\<close> and \<^verbatim>\<open>library\<close> (either may be
  \<^verbatim>\<open>null\<close>) and ends in \<^verbatim>\<open>setLibrary({bookmarks: updatedBookmarks, folders: newFolders})\<close>. The
  function below gives the next value of \<^verbatim>\<open>library\<close>; the early \<^verbatim>\<open>return\<close> leaves it as it is.
  The animation delays and the log line do not touch the library.
\<close>

definition applySuggestion ::
  "(nat \<Rightarrow> string) \<Rightarrow> Proposal option \<Rightarrow> BookmarkLibrary option \<Rightarrow> BookmarkLibrary option" where
  "applySuggestion rnd suggestion library =
     (case (suggestion, library) of
        (Some s, Some l) \<Rightarrow>
          let r = resolvePaths rnd (map path (p_folders s));
              updatedBookmarks = foldl (applyAssignment (pathMap r)) (bookmarks l) (assignments s)
          in Some \<lparr>bookmarks = updatedBookmarks, folders = newFolders r\<rparr>
      | _ \<Rightarrow> library)"

section \<open>Actions of the command service\<close>

text \<open>
  The actions that \<^verbatim>\<open>processCommand\<close> hands to its callback: \<^verbatim>\<open>CREATE_FOLDER\<close> with the
  payload \<^verbatim>\<open>{name, parentId}\<close> and \<^verbatim>\<open>MOVE_BOOKMARKS\<close> with the payload
  \<^verbatim>\<open>{bookmarkIds, targetFolderId}\<close>.
\<close>

datatype Action =
  CreateFolder string "string option"
| MoveBookmarks "string list" string

section \<open>The App's operations on a store of objects\<close>

text \<open>
  Whether an operation mutates the library it is given depends on which objects it
  writes to. Here a library, its two arrays and its bookmark and folder objects live in
  a store, at addresses; an array holds the addresses of its elements. A new object
  (an object or array literal, a spread copy, the result of \<^verbatim>\<open>map\<close>) is allocated at the
  next free address, and an assignment to a property or an index rewrites the cell of
  the object assigned to.
\<close>

type_synonym addr = nat

datatype Obj =
  BookmarkObj Bookmark
| FolderObj Folder
| ArrayObj "addr list"
| LibraryObj addr addr

record Store =
  cells :: "addr \<rightharpoonup> Obj"
  free :: addr

definition alloc :: "Obj \<Rightarrow> Store \<Rightarrow> addr \<times> Store" where
  "alloc v s = (free s, s\<lparr>cells := (cells s)(free s \<mapsto> v), free := Suc (free s)\<rparr>)"

definition assign :: "addr \<Rightarrow> Obj \<Rightarrow> Store \<Rightarrow> Store" where
  "assign a v s = s\<lparr>cells := (cells s)(a \<mapsto> v)\<rparr>"

text \<open>The elements of the array at an address (none if no array is there).\<close>

definition arrayAt :: "Store \<Rightarrow> addr \<Rightarrow> addr list" where
  "arrayAt s a = (case cells s a of Some (ArrayObj refs) \<Rightarrow> refs | _ \<Rightarrow> [])"

text \<open>
  The body of \<^verbatim>\<open>parts.forEach\<close> of \<^verbatim>\<open>applySuggestion\<close> once more, with the store:
  \<^verbatim>\<open>newFolders.push({...})\<close> allocates the folder and rewrites the array \<^verbatim>\<open>newFolders\<close>.
  The state is \<^verbatim>\<open>pathMap\<close>, the number of identifiers drawn and the store.
\<close>

definition resolvePartS ::
  "(nat \<Rightarrow> string) \<Rightarrow> addr \<Rightarrow> ((string \<rightharpoonup> string) \<times> nat \<times> Store) \<times> string option \<times> string
     \<Rightarrow> string \<Rightarrow> ((string \<rightharpoonup> string) \<times> nat \<times> Store) \<times> string option \<times> string" where
  "resolvePartS rnd newFoldersAt acc part =
     (case acc of ((pm, n, s), currentParentId, currentPath) \<Rightarrow>
        let currentPath' = (if currentPath \<noteq> [] then currentPath @ ''/'' @ part else part);
            st' = (if pm currentPath' = None
                   then let folderId = rnd n;
                            (a, s1) = alloc (FolderObj \<lparr>f_id = folderId, f_name = part,
                                                         parentId = currentParentId\<rparr>) s;
                            s2 = assign newFoldersAt (ArrayObj (arrayAt s1 newFoldersAt @ [a])) s1
                        in (pm(currentPath' \<mapsto> folderId), Suc n, s2)
                   else (pm, n, s))
        in (st', fst st' currentPath', currentPath'))"

definition resolvePathS ::
  "(nat \<Rightarrow> string) \<Rightarrow> addr \<Rightarrow> (string \<rightharpoonup> string) \<times> nat \<times> Store \<Rightarrow> string
     \<Rightarrow> (string \<rightharpoonup> string) \<times> nat \<times> Store" where
  "resolvePathS rnd newFoldersAt st p =
     fst (foldl (resolvePartS rnd newFoldersAt) (st, None, []) (split CHR ''/'' p))"

text \<open>
  The body of \<^verbatim>\<open>suggestion.assignments.forEach\<close>:
  \<^verbatim>\<open>updatedBookmarks[index] = { ...updatedBookmarks[index], folder: folderId }\<close> allocates
  the copy and rewrites the array \<^verbatim>\<open>updatedBookmarks\<close>.
\<close>

definition applyAssignmentS ::
  "(string \<rightharpoonup> string) \<Rightarrow> addr \<Rightarrow> Store \<Rightarrow> Assignment \<Rightarrow> Store" where
  "applyAssignmentS pm updatedBookmarksAt s a =
     (let folderId = pm (folderPath a) in
      if truthy folderId then
        (case findIndex (\<lambda>r. case cells s r of
                                Some (BookmarkObj b) \<Rightarrow> b_id b = bookmarkId a
                              | _ \<Rightarrow> False)
                (arrayAt s updatedBookmarksAt) of
           None \<Rightarrow> s
         | Some index \<Rightarrow>
             (case cells s (arrayAt s updatedBookmarksAt ! index) of
                Some (BookmarkObj b) \<Rightarrow>
                  let (c, s1) = alloc (BookmarkObj (b\<lparr>folder := folderId\<rparr>)) s
                  in assign updatedBookmarksAt
                       (ArrayObj ((arrayAt s1 updatedBookmarksAt)[index := c])) s1
              | _ \<Rightarrow> s))
      else s)"

text \<open>
  \<^verbatim>\<open>applySuggestion\<close> on the store: the state \<^verbatim>\<open>library\<close> is the address of a library
  object (or \<^verbatim>\<open>null\<close>), and the result is the address passed to \<^verbatim>\<open>setLibrary\<close> with the
  store the function leaves behind.
\<close>

definition applySuggestionS ::
  "(nat \<Rightarrow> string) \<Rightarrow> Proposal option \<Rightarrow> addr option \<Rightarrow> Store \<Rightarrow> addr option \<times> Store" where
  "applySuggestionS rnd suggestion library s =
     (case (suggestion, library) of
        (Some sg, Some l) \<Rightarrow>
          (case cells s l of
             Some (LibraryObj bookmarksAt foldersAt) \<Rightarrow>
               let (newFoldersAt, s1) = alloc (ArrayObj []) s;
                   (updatedBookmarksAt, s2) = alloc (ArrayObj (arrayAt s1 bookmarksAt)) s1;
                   (pm, n, s3) = foldl (resolvePathS rnd newFoldersAt) (Map.empty, 0, s2)
                                   (map path (p_folders sg));
                   s4 = foldl (applyAssignmentS pm updatedBookmarksAt) s3 (assignments sg);
                   (result, s5) = alloc (LibraryObj updatedBookmarksAt newFoldersAt) s4
               in (Some result, s5)
           | _ \<Rightarrow> (library, s))
      | _ \<Rightarrow> (library, s))"

text \<open>
  \<^verbatim>\<open>next.bookmarks.map(b => bookmarkIds.includes(b.id) ? { ...b, folder: targetFolderId } : b)\<close>:
  the addresses of the new array, a fresh copy for a bookmark that moves and the old
  address for one that stays.
\<close>

fun moveAll :: "string list \<Rightarrow> string \<Rightarrow> addr list \<Rightarrow> Store \<Rightarrow> addr list \<times> Store" where
  "moveAll bookmarkIds targetFolderId [] s = ([], s)"
| "moveAll bookmarkIds targetFolderId (r # rs) s =
     (let (r', s1) = (case cells s r of
                        Some (BookmarkObj b) \<Rightarrow>
                          if b_id b \<in> set bookmarkIds
                          then alloc (BookmarkObj (b\<lparr>folder := Some targetFolderId\<rparr>)) s
                          else (r, s)
                      | _ \<Rightarrow> (r, s));
          (rs', s2) = moveAll bookmarkIds targetFolderId rs s1
      in (r' # rs', s2))"

text \<open>
  The function that \<^verbatim>\<open>handleCommand\<close> gives to \<^verbatim>\<open>setLibrary\<close> for one action: from the
  address \<^verbatim>\<open>prev\<close> to the address \<^verbatim>\<open>next\<close>. \<^verbatim>\<open>next = { ...prev }\<close> is a new library object
  with the arrays of \<^verbatim>\<open>prev\<close>; each branch then makes a new array and assigns it to a
  property of \<^verbatim>\<open>next\<close>. \<open>newId\<close> is the identifier drawn for a new folder.
\<close>

definition handleCommandS ::
  "string \<Rightarrow> Action \<Rightarrow> addr option \<Rightarrow> Store \<Rightarrow> addr option \<times> Store" where
  "handleCommandS newId action prev s =
     (case prev of
        None \<Rightarrow> (prev, s)
      | Some p \<Rightarrow>
          (case cells s p of
             Some (LibraryObj bookmarksAt foldersAt) \<Rightarrow>
               (let (next, s1) = alloc (LibraryObj bookmarksAt foldersAt) s in
                case action of
                  MoveBookmarks bookmarkIds targetFolderId \<Rightarrow>
                    let (refs, s2) = moveAll bookmarkIds targetFolderId (arrayAt s1 bookmarksAt) s1;
                        (mapped, s3) = alloc (ArrayObj refs) s2
                    in (Some next, assign next (LibraryObj mapped foldersAt) s3)
                | CreateFolder name parent \<Rightarrow>
                    let (newFolder, s2) = alloc (FolderObj \<lparr>f_id = newId, f_name = name,
                                                              parentId = parent\<rparr>) s1;
                        (appended, s3) = alloc (ArrayObj (arrayAt s2 foldersAt @ [newFolder])) s2
                    in (Some next, assign next (LibraryObj bookmarksAt appended) s3))
           | _ \<Rightarrow> (prev, s)))"

section \<open>Serialization (exportToHTML in src/src/utils/bookmarkParser.ts)\<close>

text \<open>
  \<^verbatim>\<open>unsafe.replace(/&/g, "&amp;")\<close>: every occurrence of one character is replaced, from
  left to right.
\<close>

definition replaceAll :: "char \<Rightarrow> string \<Rightarrow> string \<Rightarrow> string" where
  "replaceAll c rep s = concat (map (\<lambda>x. if x = c then rep else [x]) s)"

text \<open>The five replacements of \<^verbatim>\<open>escapeHtml\<close>, in the order of the source.\<close>

definition escapeHtml :: "string \<Rightarrow> string" where
  "escapeHtml unsafe =
     replaceAll (CHR 0x27) ''&#039;''
       (replaceAll (CHR 0x22) ''&quot;''
         (replaceAll CHR ''>'' ''&gt;''
           (replaceAll CHR ''<'' ''&lt;''
             (replaceAll CHR ''&'' ''&amp;'' unsafe))))"

text \<open>The fixed header that \<^verbatim>\<open>html\<close> starts with, and the closing line.\<close>

definition htmlHeader :: string where
  \<open>htmlHeader =
     ''<!DOCTYPE NETSCAPE-Bookmark-file-1>\<newline>'' @
     ''<!-- This is an automatically generated file.\<newline>'' @
     ''     It will be read and overwritten.\<newline>'' @
     ''     DO NOT EDIT! -->\<newline>'' @
     ''<META HTTP-EQUIV="Content-Type" CONTENT="text/html; charset=UTF-8">\<newline>'' @
     ''<TITLE>Bookmarks</TITLE>\<newline>'' @
     ''<H1>Bookmarks</H1>\<newline>'' @
     ''<DL><p>\<newline>''\<close>

definition htmlFooter :: string where
  "htmlFooter = ''</DL><p>''"

text \<open>
  The three template literals of \<^verbatim>\<open>renderItems\<close>: the two lines that open a folder, the
  line that closes it, and the line of a bookmark. \<^verbatim>\<open>b.addDate ? ... : ''\<close> is a truthiness
  test, so an empty \<^verbatim>\<open>addDate\<close> or \<^verbatim>\<open>icon\<close> writes no attribute.
\<close>

definition folderOpen :: "string \<Rightarrow> Folder \<Rightarrow> string" where
  "folderOpen space f =
     space @ ''<DT><H3>'' @ escapeHtml (f_name f) @ ''</H3>\<newline>'' @ space @ ''<DL><p>\<newline>''"

definition folderClose :: "string \<Rightarrow> string" where
  "folderClose space = space @ ''</DL><p>\<newline>''"

definition renderBookmark :: "string \<Rightarrow> Bookmark \<Rightarrow> string" where
  \<open>renderBookmark space b =
     space @ ''<DT><A HREF="'' @ escapeHtml (url b) @ ''"'' @
     (case addDate b of
        None \<Rightarrow> []
      | Some d \<Rightarrow> if d \<noteq> [] then '' ADD_DATE="'' @ escapeHtml d @ ''"'' else []) @
     (case icon b of
        None \<Rightarrow> []
      | Some i \<Rightarrow> if i \<noteq> [] then '' ICON="'' @ escapeHtml i @ ''"'' else []) @
     ''>'' @ escapeHtml (title b) @ ''</A>\<newline>''\<close>

text \<open>
  \<^verbatim>\<open>renderItems(parentId, indent)\<close> appends to \<^verbatim>\<open>html\<close>; the function below returns the
  text one call appends. The recursion follows the \<^verbatim>\<open>parentId\<close> links downwards and need
  not end (two folders may carry the same id, one the child of the other), so the
  function takes the number of nested calls it may make: \<open>None\<close> says that this number
  did not suffice. \<open>those\<close> turns a list of results into the result of the whole
  \<^verbatim>\<open>forEach\<close>, \<open>None\<close> as soon as one call is \<open>None\<close>.
\<close>

fun renderItems :: "nat \<Rightarrow> BookmarkLibrary \<Rightarrow> string option \<Rightarrow> nat \<Rightarrow> string option" where
  "renderItems 0 library parent indent = None"
| "renderItems (Suc fuel) library parent indent =
     (let space = replicate indent CHR '' '' in
      case those (map (\<lambda>f. case renderItems fuel library (Some (f_id f)) (indent + 4) of
                              None \<Rightarrow> None
                            | Some inner \<Rightarrow> Some (folderOpen space f @ inner @ folderClose space))
                    (filter (\<lambda>f. parentId f = parent) (folders library))) of
        None \<Rightarrow> None
      | Some rendered \<Rightarrow>
          Some (concat rendered @
                concat (map (renderBookmark space)
                          (filter (\<lambda>b. folder b = parent) (bookmarks library)))))"

definition exportToHTML :: "nat \<Rightarrow> BookmarkLibrary \<Rightarrow> string option" where
  "exportToHTML fuel library =
     (case renderItems fuel library None 4 of
        None \<Rightarrow> None
      | Some body \<Rightarrow> Some (htmlHeader @ body @ htmlFooter))"

section \<open>Parsing (parseBookmarksHTML in src/src/utils/bookmarkParser.ts)\<close>

text \<open>
  The document object model that \<^verbatim>\<open>DOMParser\<close> returns, as far as the program looks at it:
  an element has a tag name (in lower case, as selectors match it in an HTML document),
  attributes (names in lower case) and child nodes; the other nodes are text. The
  document itself is the element at the root. Comments and the doctype are left out:
  no selector matches them and \<^verbatim>\<open>textContent\<close> skips them.
\<close>

datatype DomNode =
  Element (tagName: string) (attributes: "(string \<times> string) list") (childNodes: "DomNode list")
| TextNode string

fun isElement :: "DomNode \<Rightarrow> bool" where
  "isElement (Element _ _ _) = True"
| "isElement (TextNode _) = False"

text \<open>\<^verbatim>\<open>node.children\<close> filtered by tag: the child elements of a node with a given tag name.\<close>

definition childrenTagged :: "string \<Rightarrow> DomNode \<Rightarrow> DomNode list" where
  "childrenTagged t node =
     (case node of
        Element _ _ cs \<Rightarrow> filter (\<lambda>c. isElement c \<and> tagName c = t) cs
      | TextNode _ \<Rightarrow> [])"

text \<open>The element descendants of a node in document order (the node itself is not one).\<close>

fun descendants :: "DomNode \<Rightarrow> DomNode list" where
  "descendants (Element t a cs) =
     concat (map (\<lambda>c. if isElement c then c # descendants c else []) cs)"
| "descendants (TextNode s) = []"

text \<open>
  \<^verbatim>\<open>querySelectorAll(tag)\<close> and \<^verbatim>\<open>querySelector(tag)\<close> for a selector that is a tag name:
  all descendants with that tag in document order, and the first of them (\<open>None\<close> for
  \<^verbatim>\<open>null\<close>).
\<close>

definition querySelectorAll :: "string \<Rightarrow> DomNode \<Rightarrow> DomNode list" where
  "querySelectorAll t node = filter (\<lambda>e. tagName e = t) (descendants node)"

definition querySelector :: "string \<Rightarrow> DomNode \<Rightarrow> DomNode option" where
  "querySelector t node =
     (case querySelectorAll t node of [] \<Rightarrow> None | e # _ \<Rightarrow> Some e)"

text \<open>
  \<^verbatim>\<open>querySelectorAll(':scope > dt > a')\<close> and \<^verbatim>\<open>querySelectorAll(':scope > dt > h3')\<close>, in
  document order. For a heading the enclosing \<^verbatim>\<open>dt\<close> comes with it, since the program
  goes on from \<^verbatim>\<open>h3.parentElement\<close>.
\<close>

definition scopeLinks :: "DomNode \<Rightarrow> DomNode list" where
  "scopeLinks node = concat (map (childrenTagged ''a'') (childrenTagged ''dt'' node))"

definition scopeHeadings :: "DomNode \<Rightarrow> (DomNode \<times> DomNode) list" where
  "scopeHeadings node =
     concat (map (\<lambda>dt. map (\<lambda>h3. (dt, h3)) (childrenTagged ''h3'' dt)) (childrenTagged ''dt'' node))"

text \<open>\<^verbatim>\<open>textContent\<close>: the text of all text nodes below a node, in document order.\<close>

fun textContent :: "DomNode \<Rightarrow> string" where
  "textContent (TextNode s) = s"
| "textContent (Element t a cs) = concat (map textContent cs)"

text \<open>\<^verbatim>\<open>getAttribute(name)\<close>: the value of the first attribute of that name.\<close>

definition getAttribute :: "string \<Rightarrow> DomNode \<Rightarrow> string option" where
  "getAttribute name node =
     (case node of Element _ as _ \<Rightarrow> map_of as name | TextNode _ \<Rightarrow> None)"

text \<open>\<^verbatim>\<open>x || d\<close> for an optional string \<open>x\<close> and a default \<open>d\<close>, and \<^verbatim>\<open>x || undefined\<close>.\<close>

definition orElse :: "string option \<Rightarrow> string \<Rightarrow> string" where
  "orElse x d = (if truthy x then the x else d)"

definition orUndefined :: "string option \<Rightarrow> string option" where
  "orUndefined x = (if truthy x then x else None)"

text \<open>
  The state of the parser: the arrays \<^verbatim>\<open>bookmarks\<close> and \<^verbatim>\<open>folders\<close> and the number of
  identifiers drawn from \<^verbatim>\<open>Math.random\<close> so far.
\<close>

record parser =
  out_bookmarks :: "Bookmark list"
  out_folders :: "Folder list"
  out_drawn :: nat

text \<open>The body of \<^verbatim>\<open>links.forEach\<close> in \<^verbatim>\<open>processNode\<close>.\<close>

definition pushLink :: "(nat \<Rightarrow> string) \<Rightarrow> string option \<Rightarrow> parser \<Rightarrow> DomNode \<Rightarrow> parser" where
  "pushLink rnd currentFolderId st link =
     st\<lparr>out_bookmarks := out_bookmarks st @
            [\<lparr>b_id = rnd (out_drawn st),
              title = orElse (Some (textContent link)) ''Untitled'',
              url = orElse (getAttribute ''href'' link) [],
              addDate = orUndefined (getAttribute ''add_date'' link),
              icon = orUndefined (getAttribute ''icon'' link),
              tags = None,
              folder = currentFolderId\<rparr>],
        out_drawn := Suc (out_drawn st)\<rparr>"

text \<open>The push of \<^verbatim>\<open>folderNodes.forEach\<close>, before the recursive call.\<close>

definition pushFolder :: "(nat \<Rightarrow> string) \<Rightarrow> string option \<Rightarrow> parser \<Rightarrow> DomNode \<Rightarrow> parser" where
  "pushFolder rnd currentFolderId st h3 =
     st\<lparr>out_folders := out_folders st @
            [\<lparr>f_id = rnd (out_drawn st),
              f_name = orElse (Some (textContent h3)) ''New Folder'',
              parentId = currentFolderId\<rparr>],
        out_drawn := Suc (out_drawn st)\<rparr>"

lemma size_descendants: "d \<in> set (descendants n) \<Longrightarrow> size d < size n"
proof (induction n arbitrary: d)
  case (Element t a cs)
  then obtain c where c: "c \<in> set cs" "isElement c" "d = c \<or> d \<in> set (descendants c)"
    by (auto split: if_splits)
  then have "size d \<le> size c" using Element.IH [of c d] by auto
  moreover have "size c < size (Element t a cs)"
    using c(1) by (simp add: size_list_estimation' less_Suc_eq_le)
  ultimately show ?case by simp
next
  case (TextNode s)
  then show ?case by simp
qed

lemma size_querySelector: "querySelector t n = Some d \<Longrightarrow> size d < size n"
proof -
  assume "querySelector t n = Some d"
  then have "d \<in> set (querySelectorAll t n)"
    by (auto simp: querySelector_def split: list.splits)
  then show ?thesis by (auto simp: querySelectorAll_def dest: size_descendants)
qed

lemma size_childrenTagged: "c \<in> set (childrenTagged t n) \<Longrightarrow> size c < size n"
  by (cases n) (auto simp: childrenTagged_def size_list_estimation' less_Suc_eq_le)

lemma size_scopeHeadings: "(dt, h3) \<in> set (scopeHeadings n) \<Longrightarrow> size dt < size n"
  by (auto simp: scopeHeadings_def dest: size_childrenTagged)

text \<open>
  \<^verbatim>\<open>processNode(node, currentFolderId)\<close>: first every link of the list, then every
  heading, each followed at once by the list found below its \<^verbatim>\<open>dt\<close>
  (\<^verbatim>\<open>h3.parentElement?.querySelector('dl')\<close>), if there is one.
\<close>

function processNode ::
  "(nat \<Rightarrow> string) \<Rightarrow> DomNode \<Rightarrow> string option \<Rightarrow> parser \<Rightarrow> parser" where
  "processNode rnd node currentFolderId st =
     foldl (\<lambda>acc dh.
              let folderId = rnd (out_drawn acc);
                  acc' = pushFolder rnd currentFolderId acc (snd dh)
              in case querySelector ''dl'' (fst dh) of
                   None \<Rightarrow> acc'
                 | Some nextDl \<Rightarrow> processNode rnd nextDl (Some folderId) acc')
           (foldl (pushLink rnd currentFolderId) st (scopeLinks node))
           (scopeHeadings node)"
  by pat_completeness auto
termination
  by (relation "measure (\<lambda>(rnd, node, cur, st). size node)")
    (auto dest!: size_querySelector size_scopeHeadings)

declare processNode.simps [simp del]

text \<open>The body of the \<^verbatim>\<open>forEach\<close> of the fallback, which reads neither date nor icon.\<close>

definition pushFlatLink :: "(nat \<Rightarrow> string) \<Rightarrow> parser \<Rightarrow> DomNode \<Rightarrow> parser" where
  "pushFlatLink rnd st link =
     st\<lparr>out_bookmarks := out_bookmarks st @
            [\<lparr>b_id = rnd (out_drawn st),
              title = orElse (Some (textContent link)) ''Untitled'',
              url = orElse (getAttribute ''href'' link) [],
              addDate = None, icon = None, tags = None, folder = None\<rparr>],
        out_drawn := Suc (out_drawn st)\<rparr>"

text \<open>
  \<^verbatim>\<open>parseBookmarksHTML(html)\<close>. The browser's \<^verbatim>\<open>DOMParser\<close> is not part of the program: it
  is the parameter \<open>parseFromString\<close>, from the text to the document. The identifiers
  come from \<open>rnd\<close> as before.
\<close>

definition parseBookmarksHTML ::
  "(nat \<Rightarrow> string) \<Rightarrow> (string \<Rightarrow> DomNode) \<Rightarrow> string \<Rightarrow> BookmarkLibrary" where
  "parseBookmarksHTML rnd parseFromString html =
     (let doc = parseFromString html;
          st0 = \<lparr>out_bookmarks = [], out_folders = [], out_drawn = 0\<rparr>;
          st = (case querySelector ''dl'' doc of
                  Some rootDl \<Rightarrow> processNode rnd rootDl None st0
                | None \<Rightarrow> foldl (pushFlatLink rnd) st0 (querySelectorAll ''a'' doc))
      in \<lparr>bookmarks = out_bookmarks st, folders = out_folders st\<rparr>)"

section \<open>The browser's HTML parser (DOMParser.parseFromString)\<close>

text \<open>
  \<^verbatim>\<open>new DOMParser().parseFromString(html, 'text/html')\<close> is the HTML parser of the browser,
  not code of the program. What follows is a model of it for the kind of document the
  program writes and reads: the preprocessing of the input, the tokenizer and the tree
  construction, after the rules of the HTML standard for the elements \<^verbatim>\<open>dl\<close>, \<^verbatim>\<open>dt\<close>,
  \<^verbatim>\<open>dd\<close>, \<^verbatim>\<open>p\<close>, \<^verbatim>\<open>h1\<close> to \<^verbatim>\<open>h6\<close> and \<^verbatim>\<open>a\<close> in the body and \<^verbatim>\<open>meta\<close>, \<^verbatim>\<open>link\<close>, \<^verbatim>\<open>base\<close>
  and \<^verbatim>\<open>title\<close> in the head. The model is partial: every function returns \<open>None\<close> for
  an input that needs a rule it does not have (another element, an attribute without a
  quoted value, a character reference other than the five written by \<^verbatim>\<open>escapeHtml\<close>,
  markup inside a link or a heading), so that \<open>Some\<close> is only returned where the rules
  below decide the document. Comments and the doctype produce no node of \<open>DomNode\<close>.
\<close>

subsection \<open>Tokenizer\<close>

text \<open>
  The classes of characters of the tokenizer, and the preprocessing of the input stream:
  a carriage return followed by a line feed becomes a line feed, and so does any other
  carriage return.
\<close>


definition isSpace :: "char \<Rightarrow> bool" where
  "isSpace c \<longleftrightarrow> c = CHR 0x09 \<or> c = CHR 0x0A \<or> c = CHR 0x0C \<or> c = CHR '' ''"

definition lower :: "char \<Rightarrow> char" where
  "lower c =
     (case map_of (zip ''ABCDEFGHIJKLMNOPQRSTUVWXYZ'' ''abcdefghijklmnopqrstuvwxyz'') c of
        Some l \<Rightarrow> l
      | None \<Rightarrow> c)"

definition isAlpha :: "char \<Rightarrow> bool" where
  "isAlpha c \<longleftrightarrow> lower c \<in> set ''abcdefghijklmnopqrstuvwxyz''"

definition isDigit :: "char \<Rightarrow> bool" where
  "isDigit c \<longleftrightarrow> c \<in> set ''0123456789''"

fun normalizeNewlines :: "string \<Rightarrow> string" where
  "normalizeNewlines [] = []"
| "normalizeNewlines [c] = [if c = CHR 0x0D then CHR 0x0A else c]"
| "normalizeNewlines (c # d # r) =
     (if c = CHR 0x0D
      then (if d = CHR 0x0A then CHR 0x0A # normalizeNewlines r
            else CHR 0x0A # normalizeNewlines (d # r))
      else c # normalizeNewlines (d # r))"

text \<open>
  The tokens that reach the tree construction. A tag name and an attribute name are in
  lower case; of two attributes of the same name the first is kept.
\<close>

datatype Token =
  StartTag string "(string \<times> string) list"
| EndTag string
| Character char

text \<open>
  The text after an ampersand: one of the references \<^verbatim>\<open>&amp;\<close>, \<^verbatim>\<open>&lt;\<close>, \<^verbatim>\<open>&gt;\<close>,
  \<^verbatim>\<open>&quot;\<close>, \<^verbatim>\<open>&#039;\<close> or \<^verbatim>\<open>&#39;\<close> gives its character, and an ampersand that is followed
  by neither a letter, a digit nor \<^verbatim>\<open>#\<close> stands for itself. The result is the text produced
  and the rest of the input.
\<close>

definition charRef :: "string \<Rightarrow> (string \<times> string) option" where
  "charRef s =
     (if take 4 s = ''amp;'' then Some (''&'', drop 4 s)
      else if take 3 s = ''lt;'' then Some (''<'', drop 3 s)
      else if take 3 s = ''gt;'' then Some (''>'', drop 3 s)
      else if take 5 s = ''quot;'' then Some ([CHR 0x22], drop 5 s)
      else if take 5 s = ''#039;'' then Some ([CHR 0x27], drop 5 s)
      else if take 4 s = ''#39;'' then Some ([CHR 0x27], drop 4 s)
      else (case s of
              [] \<Rightarrow> Some (''&'', s)
            | c # _ \<Rightarrow> if isAlpha c \<or> isDigit c \<or> c = CHR ''#'' then None else Some (''&'', s)))"

lemma charRef_length: "charRef s = Some (d, r) \<Longrightarrow> length r \<le> length s"
  by (auto simp: charRef_def split: if_splits list.splits)

text \<open>
  A quoted attribute value, up to the closing quote \<open>q\<close>, with its character
  references replaced.
\<close>

function attrValue :: "char \<Rightarrow> string \<Rightarrow> (string \<times> string) option" where
  "attrValue q [] = None"
| "attrValue q (c # cs) =
     (if c = q then Some ([], cs)
      else if c = CHR 0x00 then None
      else if c = CHR ''&'' then
        (case charRef cs of
           None \<Rightarrow> None
         | Some (d, r) \<Rightarrow> map_option (\<lambda>vr. (d @ fst vr, snd vr)) (attrValue q r))
      else map_option (\<lambda>vr. (c # fst vr, snd vr)) (attrValue q cs))"
  by pat_completeness auto
termination
  by (relation "measure (\<lambda>(q, s). length s)") (auto dest: charRef_length)

declare attrValue.simps [simp del]

lemma attrValue_length: "attrValue q s = Some (v, r) \<Longrightarrow> length r < length s"
proof (induction q s arbitrary: v r rule: attrValue.induct)
  case (1 q)
  then show ?case by (simp add: attrValue.simps)
next
  case (2 q c cs)
  show ?case
  proof (cases "c = q")
    case True
    with 2 show ?thesis by (auto simp: attrValue.simps)
  next
    case False
    show ?thesis
    proof (cases "c = CHR ''&''")
      case True
      with "2.prems" False obtain d r0 v0 where cr: "charRef cs = Some (d, r0)"
        and av: "attrValue q r0 = Some (v0, r)" and nz: "c \<noteq> CHR 0x00"
        by (auto simp: attrValue.simps split: if_splits option.splits)
      have "length r < length r0"
        using "2.IH"(1) False nz True cr av by blast
      with charRef_length [OF cr] show ?thesis by simp
    next
      case nb: False
      with "2.prems" False obtain v0 where av: "attrValue q cs = Some (v0, r)"
        and nz: "c \<noteq> CHR 0x00"
        by (auto simp: attrValue.simps split: if_splits)
      have "length r < length cs"
        using "2.IH"(2) False nz nb av by blast
      then show ?thesis by simp
    qed
  qed
qed

text \<open>
  The attributes of a tag, up to and including the \<^verbatim>\<open>>\<close> that ends it: each a name, an
  equals sign and a quoted value.
\<close>

definition attrNameChar :: "char \<Rightarrow> bool" where
  "attrNameChar c \<longleftrightarrow>
     \<not> isSpace c \<and> c \<noteq> CHR ''/'' \<and> c \<noteq> CHR ''>'' \<and> c \<noteq> CHR ''='' \<and> c \<noteq> CHR 0x00"

definition addAttr :: "string \<times> string \<Rightarrow> (string \<times> string) list \<Rightarrow> (string \<times> string) list" where
  "addAttr a as = a # filter (\<lambda>b. fst b \<noteq> fst a) as"

function scanAttributes :: "string \<Rightarrow> ((string \<times> string) list \<times> string) option" where
  "scanAttributes [] = None"
| "scanAttributes (c # cs) =
     (if isSpace c then scanAttributes cs
      else if c = CHR ''>'' then Some ([], cs)
      else if \<not> attrNameChar c then None
      else (case dropWhile isSpace (dropWhile attrNameChar cs) of
              [] \<Rightarrow> None
            | e # r3 \<Rightarrow>
                if e \<noteq> CHR ''='' then None
                else (case dropWhile isSpace r3 of
                        [] \<Rightarrow> None
                      | q # v \<Rightarrow>
                          if q \<noteq> CHR 0x22 \<and> q \<noteq> CHR 0x27 then None
                          else (case attrValue q v of
                                  None \<Rightarrow> None
                                | Some (val, r4) \<Rightarrow>
                                    map_option
                                      (\<lambda>ar. (addAttr (map lower (c # takeWhile attrNameChar cs), val) (fst ar),
                                             snd ar))
                                      (scanAttributes r4)))))"
  by pat_completeness auto
termination
proof (relation "measure length")
  show "wf (measure length)" by simp
next
  fix c cs
  show "(cs, c # cs) \<in> measure length" by simp
next
  fix c cs e r3 q v val r4 x2
  assume a: "dropWhile isSpace (dropWhile attrNameChar cs) = e # r3"
    "dropWhile isSpace r3 = q # v" "attrValue q v = Some x2" "(val, r4) = x2"
  have "length r4 < length v" using a(3,4) attrValue_length [of q v val r4] by simp
  also have "length v < length (dropWhile isSpace r3)" using a(2) by simp
  also have "\<dots> \<le> length r3" by (rule length_dropWhile_le)
  also have "length r3 < length (dropWhile isSpace (dropWhile attrNameChar cs))" using a(1) by simp
  also have "\<dots> \<le> length (dropWhile attrNameChar cs)" by (rule length_dropWhile_le)
  also have "\<dots> \<le> length cs" by (rule length_dropWhile_le)
  finally show "(r4, c # cs) \<in> measure length" by simp
qed

declare scanAttributes.simps [simp del]


lemma scanAttributes_length: "scanAttributes s = Some (as, r) \<Longrightarrow> length r < length s"
proof (induction s arbitrary: as r rule: scanAttributes.induct)
  case 1
  then show ?case by (simp add: scanAttributes.simps)
next
  case (2 c cs)
  show ?case
  proof (cases "isSpace c")
    case True
    with "2.prems" have "scanAttributes cs = Some (as, r)" by (simp add: scanAttributes.simps)
    with "2.IH"(1) True have "length r < length cs" by blast
    then show ?thesis by simp
  next
    case False
    show ?thesis
    proof (cases "c = CHR ''>''")
      case True
      with "2.prems" False show ?thesis by (simp add: scanAttributes.simps)
    next
      case ng: False
      from "2.prems" False ng obtain e r3 q v val r4 as0 where
        nc: "attrNameChar c" and
        a: "dropWhile isSpace (dropWhile attrNameChar cs) = e # r3"
        "dropWhile isSpace r3 = q # v" "attrValue q v = Some (val, r4)"
        "scanAttributes r4 = Some (as0, r)"
        and e: "e = CHR ''=''" and q: "\<not> (q \<noteq> CHR 0x22 \<and> q \<noteq> CHR 0x27)"
        by (auto simp: scanAttributes.simps split: if_splits list.splits option.splits)
      have "length r < length r4"
        using "2.IH"(2) [of e r3 q v "(val, r4)" val r4 as0 r] False ng nc a e q
        by simp
      also have "length r4 < length v" using attrValue_length [OF a(3)] .
      also have "length v < length (dropWhile isSpace r3)" using a(2) by simp
      also have "\<dots> \<le> length r3" by (rule length_dropWhile_le)
      also have "length r3 < length (dropWhile isSpace (dropWhile attrNameChar cs))" using a(1) by simp
      also have "\<dots> \<le> length (dropWhile attrNameChar cs)" by (rule length_dropWhile_le)
      also have "\<dots> \<le> length cs" by (rule length_dropWhile_le)
      finally show ?thesis by simp
    qed
  qed
qed


text \<open>
  What follows a \<^verbatim>\<open><\<close>: a comment (it ends at the first \<^verbatim>\<open>-->\<close> or \<^verbatim>\<open>--!>\<close>), a doctype or
  another declaration (up to the first \<^verbatim>\<open>>\<close>), an end tag or a start tag. After the start
  tag of \<^verbatim>\<open>title\<close> the text up to \<^verbatim>\<open></title>\<close> is character data. A \<^verbatim>\<open><\<close> that starts none
  of these is a character.
\<close>

definition tagNameChar :: "char \<Rightarrow> bool" where
  "tagNameChar c \<longleftrightarrow> \<not> isSpace c \<and> c \<noteq> CHR ''/'' \<and> c \<noteq> CHR ''>'' \<and> c \<noteq> CHR 0x00"

fun findCommentEnd :: "string \<Rightarrow> string" where
  "findCommentEnd [] = []"
| "findCommentEnd (c # cs) =
     (if take 3 (c # cs) = ''-->'' then drop 3 (c # cs)
      else if take 4 (c # cs) = ''--!>'' then drop 4 (c # cs)
      else findCommentEnd cs)"

definition skipComment :: "string \<Rightarrow> string" where
  "skipComment s =
     (if take 1 s = ''>'' then drop 1 s
      else if take 2 s = ''->'' then drop 2 s
      else findCommentEnd s)"

definition scanTitle :: "string \<Rightarrow> (Token list \<times> string) option" where
  "scanTitle s =
     (let text = takeWhile (\<lambda>c. c \<noteq> CHR ''<'' \<and> c \<noteq> CHR ''&'' \<and> c \<noteq> CHR 0x00) s;
          rest = drop (length text) s
      in if map lower (take 8 rest) = ''</title>''
         then Some (map Character text @ [EndTag ''title''], drop 8 rest)
         else None)"

definition rawTextTags :: "string list" where
  "rawTextTags = [''textarea'', ''style'', ''script'', ''xmp'', ''iframe'', ''noembed'',
                  ''noframes'', ''noscript'', ''plaintext'']"

definition scanEndTag :: "string \<Rightarrow> (Token list \<times> string) option" where
  "scanEndTag s =
     (case scanAttributes (dropWhile tagNameChar s) of
        None \<Rightarrow> None
      | Some (_, rest) \<Rightarrow> Some ([EndTag (map lower (takeWhile tagNameChar s))], rest))"

definition scanStartTag :: "string \<Rightarrow> (Token list \<times> string) option" where
  "scanStartTag s =
     (let name = map lower (takeWhile tagNameChar s) in
      case scanAttributes (dropWhile tagNameChar s) of
        None \<Rightarrow> None
      | Some (as, rest) \<Rightarrow>
          if name = ''title'' then
            (case scanTitle rest of
               None \<Rightarrow> None
             | Some (ts, rest') \<Rightarrow> Some (StartTag name as # ts, rest'))
          else if name \<in> set rawTextTags then None
          else Some ([StartTag name as], rest))"

definition scanTag :: "string \<Rightarrow> (Token list \<times> string) option" where
  "scanTag s =
     (case s of
        [] \<Rightarrow> Some ([Character CHR ''<''], [])
      | c # r \<Rightarrow>
          if c = CHR ''!'' then
            (if take 2 r = ''--'' then Some ([], skipComment (drop 2 r))
             else if map lower (take 7 r) = ''doctype'' \<and>
                     (CHR 0x22 \<in> set (takeWhile (\<lambda>x. x \<noteq> CHR ''>'') r) \<or>
                      CHR 0x27 \<in> set (takeWhile (\<lambda>x. x \<noteq> CHR ''>'') r))
             then None
             else Some ([], drop 1 (dropWhile (\<lambda>x. x \<noteq> CHR ''>'') r)))
          else if c = CHR ''/'' then
            (case r of
               [] \<Rightarrow> Some ([Character CHR ''<'', Character CHR ''/''], [])
             | x # _ \<Rightarrow> if isAlpha x then scanEndTag r else None)
          else if isAlpha c then scanStartTag s
          else if c = CHR ''?'' then None
          else Some ([Character CHR ''<''], s))"

lemma findCommentEnd_length: "length (findCommentEnd s) \<le> length s"
  by (induction s) (auto simp: le_SucI)

lemma skipComment_length: "length (skipComment s) \<le> length s"
  using findCommentEnd_length [of s] by (simp add: skipComment_def)

lemma scanTitle_length: "scanTitle s = Some (ts, r) \<Longrightarrow> length r \<le> length s"
  by (auto simp: scanTitle_def Let_def split: if_splits)

lemma scanAttributes_dropWhile_length:
  "scanAttributes (dropWhile P s) = Some (as, r) \<Longrightarrow> length r < length s"
  using scanAttributes_length [of "dropWhile P s" as r] length_dropWhile_le [of P s] by simp

lemma scanEndTag_length: "scanEndTag s = Some (ts, r) \<Longrightarrow> length r < length s"
  by (auto simp: scanEndTag_def split: option.splits dest: scanAttributes_dropWhile_length)

lemma scanStartTag_length: "scanStartTag s = Some (ts, r) \<Longrightarrow> length r < length s"
  by (auto simp: scanStartTag_def Let_def split: option.splits if_splits
      dest!: scanAttributes_dropWhile_length scanTitle_length)

lemma scanTag_length: "scanTag s = Some (ts, r) \<Longrightarrow> length r \<le> length s"
proof (cases s)
  case Nil
  then show "scanTag s = Some (ts, r) \<Longrightarrow> ?thesis" by (simp add: scanTag_def)
next
  case (Cons c cs)
  assume st: "scanTag s = Some (ts, r)"
  have dw: "length (drop 1 (dropWhile (\<lambda>x. x \<noteq> CHR ''>'') cs)) \<le> length cs"
    using length_dropWhile_le [of "\<lambda>x. x \<noteq> CHR ''>''" cs] by simp
  have sc: "length (skipComment (drop 2 cs)) \<le> length cs"
    using skipComment_length [of "drop 2 cs"] by simp
  have e: "scanEndTag cs = Some (ts, r) \<Longrightarrow> length r < length cs"
    by (rule scanEndTag_length)
  have b: "scanStartTag s = Some (ts, r) \<Longrightarrow> length r < length s"
    by (rule scanStartTag_length)
  from st consider "r = skipComment (drop 2 cs)" | "r = drop 1 (dropWhile (\<lambda>x. x \<noteq> CHR ''>'') cs)"
    | "r = []" | "scanEndTag cs = Some (ts, r)" | "scanStartTag s = Some (ts, r)" | "r = s"
    unfolding scanTag_def Cons [symmetric]
    unfolding Cons list.case
    by (auto split: if_splits list.splits)
  then show ?thesis
    using dw sc e b Cons by cases auto
qed

text \<open>
  The tokens of a text, one character token for every character of the data.
\<close>

function tokenize :: "string \<Rightarrow> Token list option" where
  "tokenize [] = Some []"
| "tokenize (c # cs) =
     (if c = CHR ''<'' then
        (case scanTag cs of
           None \<Rightarrow> None
         | Some (ts, r) \<Rightarrow> map_option ((@) ts) (tokenize r))
      else if c = CHR ''&'' then
        (case charRef cs of
           None \<Rightarrow> None
         | Some (d, r) \<Rightarrow> map_option ((@) (map Character d)) (tokenize r))
      else map_option ((#) (Character c)) (tokenize cs))"
  by pat_completeness auto
termination
  by (relation "measure length")
     (auto dest: scanTag_length charRef_length simp: less_Suc_eq_le)

declare tokenize.simps [simp del]



subsection \<open>Tree construction\<close>

text \<open>
  The stack of open elements, the current node first: each open element with its tag,
  its attributes and the children it has so far, the last one first. \<open>closed\<close> is the
  finished element, \<open>pop\<close> closes the current node and appends it to its parent, and
  \<open>popUntil t\<close> pops up to and including the first element of tag \<open>t\<close>, which is what
  \<open>generate implied end tags\<close> followed by \<open>pop until\<close> comes to for the elements at
  hand. A character is appended to the text node that ends the current node, if there is
  one. None of the elements of the model bounds a scope, so an element is in scope when
  it is on the stack.
\<close>

datatype Mode = BeforeHead | InHead | InTitle | AfterHead | InBody

datatype Frame =
  Frame (open_tag: string) (open_attrs: "(string \<times> string) list") (open_kids: "DomNode list")

fun insertChar :: "char \<Rightarrow> DomNode list \<Rightarrow> DomNode list" where
  "insertChar c (TextNode s # ks) = TextNode (s @ [c]) # ks"
| "insertChar c ks = TextNode [c] # ks"

fun addNode :: "DomNode \<Rightarrow> Frame list \<Rightarrow> Frame list" where
  "addNode n [] = []"
| "addNode n (Frame t a ks # fs) = Frame t a (n # ks) # fs"

fun addChar :: "char \<Rightarrow> Frame list \<Rightarrow> Frame list" where
  "addChar c [] = []"
| "addChar c (Frame t a ks # fs) = Frame t a (insertChar c ks) # fs"

definition push :: "string \<Rightarrow> (string \<times> string) list \<Rightarrow> Frame list \<Rightarrow> Frame list" where
  "push t a fs = Frame t a [] # fs"

fun closed :: "Frame \<Rightarrow> DomNode" where
  "closed (Frame t a ks) = Element t a (rev ks)"

fun pop :: "Frame list \<Rightarrow> Frame list" where
  "pop [] = []"
| "pop (f # fs) = addNode (closed f) fs"

lemma length_addNode [simp]: "length (addNode n fs) = length fs"
  by (cases "(n, fs)" rule: addNode.cases) simp_all

function popUntil :: "string \<Rightarrow> Frame list \<Rightarrow> Frame list" where
  "popUntil t [] = []"
| "popUntil t (f # fs) = (if open_tag f = t then pop (f # fs) else popUntil t (pop (f # fs)))"
  by pat_completeness auto
termination
  by (relation "measure (\<lambda>(t, fs). length fs)") simp_all

definition inStack :: "string \<Rightarrow> Frame list \<Rightarrow> bool" where
  "inStack t fs \<longleftrightarrow> t \<in> set (map open_tag fs)"

definition closeP :: "Frame list \<Rightarrow> Frame list" where
  "closeP fs = (if inStack ''p'' fs then popUntil ''p'' fs else fs)"

text \<open>
  A link or a heading that is open is the current node: the model accepts only text and
  the matching end tag there. \<open>closesItem\<close> is the search of the rule for a \<^verbatim>\<open>dt\<close> or
  \<^verbatim>\<open>dd\<close> start tag: from the current node downwards, past \<^verbatim>\<open>p\<close> elements, for a \<^verbatim>\<open>dt\<close>
  or \<^verbatim>\<open>dd\<close> to close.
\<close>

definition headings :: "string list" where
  "headings = [''h1'', ''h2'', ''h3'', ''h4'', ''h5'', ''h6'']"

definition leafOpen :: "Frame list \<Rightarrow> bool" where
  "leafOpen fs = (case fs of [] \<Rightarrow> False | f # _ \<Rightarrow> open_tag f = ''a'' \<or> open_tag f \<in> set headings)"

fun closesItem :: "Frame list \<Rightarrow> string option" where
  "closesItem [] = None"
| "closesItem (f # fs) =
     (if open_tag f = ''dt'' \<or> open_tag f = ''dd'' then Some (open_tag f)
      else if open_tag f = ''p'' then closesItem fs
      else None)"

text \<open>
  The insertion mode \<open>in body\<close>. A start tag of \<^verbatim>\<open>dl\<close>, \<^verbatim>\<open>p\<close> or a heading closes an open
  \<^verbatim>\<open>p\<close> and inserts the element; \<^verbatim>\<open>dt\<close> and \<^verbatim>\<open>dd\<close> first close an open \<^verbatim>\<open>dt\<close> or \<^verbatim>\<open>dd\<close>;
  an end tag of \<^verbatim>\<open>dl\<close>, \<^verbatim>\<open>dt\<close> or \<^verbatim>\<open>dd\<close> pops up to that element if there is one and is
  ignored otherwise; \<^verbatim>\<open></p>\<close> without an open \<^verbatim>\<open>p\<close> inserts an empty one. The character
  NUL is ignored.
\<close>

definition inLeaf :: "Token \<Rightarrow> Frame list \<Rightarrow> Frame list option" where
  "inLeaf tok fs =
     (case tok of
        Character c \<Rightarrow> Some (if c = CHR 0x00 then fs else addChar c fs)
      | EndTag t \<Rightarrow>
          if (t = ''a'' \<and> open_tag (hd fs) = ''a'') \<or> (t \<in> set headings \<and> open_tag (hd fs) \<in> set headings)
          then Some (pop fs) else None
      | StartTag t a \<Rightarrow> None)"

definition inBody :: "Token \<Rightarrow> Frame list \<Rightarrow> Frame list option" where
  "inBody tok fs =
     (if leafOpen fs then inLeaf tok fs
      else case tok of
        Character c \<Rightarrow> Some (if c = CHR 0x00 then fs else addChar c fs)
      | StartTag t a \<Rightarrow>
          if t = ''dl'' \<or> t = ''p'' \<or> t \<in> set headings then Some (push t a (closeP fs))
          else if t = ''dt'' \<or> t = ''dd'' then
            Some (push t a (closeP (case closesItem fs of None \<Rightarrow> fs | Some i \<Rightarrow> popUntil i fs)))
          else if t = ''a'' then Some (push t a fs)
          else None
      | EndTag t \<Rightarrow>
          if t = ''dl'' \<or> t = ''dt'' \<or> t = ''dd'' then Some (if inStack t fs then popUntil t fs else fs)
          else if t = ''p'' then Some (if inStack t fs then popUntil t fs else addNode (Element ''p'' [] []) fs)
          else if t = ''a'' \<or> t \<in> set headings then Some fs
          else None)"

text \<open>
  The insertion modes before the body. White space before the head is ignored, white
  space in the head and after it is inserted; the first token that does not belong to
  the head makes the \<^verbatim>\<open>head\<close> and the \<^verbatim>\<open>body\<close> that the text left out.
\<close>

definition ignoredEndTag :: "string \<Rightarrow> bool" where
  "ignoredEndTag t \<longleftrightarrow> t \<noteq> ''body'' \<and> t \<noteq> ''html'' \<and> t \<noteq> ''br'' \<and> t \<noteq> ''head''"

definition afterHead :: "Token \<Rightarrow> Frame list \<Rightarrow> (Mode \<times> Frame list) option" where
  "afterHead tok fs =
     (case tok of
        Character c \<Rightarrow>
          if isSpace c then Some (AfterHead, addChar c fs)
          else map_option (Pair InBody) (inBody tok (push ''body'' [] fs))
      | StartTag t a \<Rightarrow>
          if t = ''body'' then Some (InBody, push t a fs)
          else map_option (Pair InBody) (inBody tok (push ''body'' [] fs))
      | EndTag t \<Rightarrow> if ignoredEndTag t then Some (AfterHead, fs) else None)"

definition inHead :: "Token \<Rightarrow> Frame list \<Rightarrow> (Mode \<times> Frame list) option" where
  "inHead tok fs =
     (case tok of
        Character c \<Rightarrow>
          if isSpace c then Some (InHead, addChar c fs) else afterHead tok (pop fs)
      | StartTag t a \<Rightarrow>
          if t = ''meta'' \<or> t = ''link'' \<or> t = ''base'' then Some (InHead, addNode (Element t a []) fs)
          else if t = ''title'' then Some (InTitle, push t a fs)
          else if t = ''head'' \<or> t = ''html'' then None
          else afterHead tok (pop fs)
      | EndTag t \<Rightarrow>
          if t = ''head'' then Some (AfterHead, pop fs)
          else if ignoredEndTag t then Some (InHead, fs)
          else None)"

definition inTitle :: "Token \<Rightarrow> Frame list \<Rightarrow> (Mode \<times> Frame list) option" where
  "inTitle tok fs =
     (case tok of
        Character c \<Rightarrow> Some (InTitle, addChar c fs)
      | EndTag t \<Rightarrow> if t = ''title'' then Some (InHead, pop fs) else None
      | StartTag t a \<Rightarrow> None)"

definition beforeHead :: "Token \<Rightarrow> Frame list \<Rightarrow> (Mode \<times> Frame list) option" where
  "beforeHead tok fs =
     (case tok of
        Character c \<Rightarrow>
          if isSpace c then Some (BeforeHead, fs)
          else inHead tok (push ''head'' [] (push ''html'' [] fs))
      | StartTag t a \<Rightarrow>
          if t = ''head'' then Some (InHead, push t a (push ''html'' [] fs))
          else if t = ''html'' then None
          else inHead tok (push ''head'' [] (push ''html'' [] fs))
      | EndTag t \<Rightarrow> if ignoredEndTag t then Some (BeforeHead, fs) else None)"

definition step :: "(Mode \<times> Frame list) option \<Rightarrow> Token \<Rightarrow> (Mode \<times> Frame list) option" where
  "step st tok =
     (case st of
        None \<Rightarrow> None
      | Some (m, fs) \<Rightarrow>
          (case m of
             BeforeHead \<Rightarrow> beforeHead tok fs
           | InHead \<Rightarrow> inHead tok fs
           | InTitle \<Rightarrow> inTitle tok fs
           | AfterHead \<Rightarrow> afterHead tok fs
           | InBody \<Rightarrow> map_option (Pair InBody) (inBody tok fs)))"

text \<open>
  The end of the input: the elements that are missing are made, every open element is
  closed, and the document is the node above \<^verbatim>\<open>html\<close>.
\<close>

function popAll :: "Frame list \<Rightarrow> DomNode list" where
  "popAll [] = []"
| "popAll [f] = [closed f]"
| "popAll (f # g # fs) = popAll (pop (f # g # fs))"
  by pat_completeness auto
termination
  by (relation "measure length") simp_all

definition endOfFile :: "Mode \<times> Frame list \<Rightarrow> Frame list option" where
  "endOfFile st =
     (case st of (m, fs) \<Rightarrow>
        (case m of
           BeforeHead \<Rightarrow> Some (push ''body'' [] (pop (push ''head'' [] (push ''html'' [] fs))))
         | InHead \<Rightarrow> Some (push ''body'' [] (pop fs))
         | InTitle \<Rightarrow> None
         | AfterHead \<Rightarrow> Some (push ''body'' [] fs)
         | InBody \<Rightarrow> Some fs))"

definition parseHtml :: "string \<Rightarrow> DomNode option" where
  "parseHtml html =
     (case tokenize (normalizeNewlines html) of
        None \<Rightarrow> None
      | Some toks \<Rightarrow>
          (case foldl step (Some (BeforeHead, [])) toks of
             None \<Rightarrow> None
           | Some st \<Rightarrow> map_option (\<lambda>fs. Element ''#document'' [] (popAll fs)) (endOfFile st)))"

text \<open>
  The parser as the function that \<open>parseBookmarksHTML\<close> takes; outside the model its value
  is not specified.
\<close>

definition modelParser :: "string \<Rightarrow> DomNode" where
  "modelParser html = the (parseHtml html)"

section \<open>The auto-sort listener (src/src/background/index.ts)\<close>

text \<open>
  A node of the host bookmark tree, \<^verbatim>\<open>chrome.bookmarks.BookmarkTreeNode\<close>: its id, its
  title, its url (absent for a folder) and its children (absent for a bookmark).
\<close>

datatype BookmarkTreeNode =
  Node (n_id: string) (n_title: string) (n_url: "string option")
       (n_children: "BookmarkTreeNode list option")

text \<open>
  \<^verbatim>\<open>folderNameMap\<close> and \<^verbatim>\<open>createdFolders\<close> are object literals \<^verbatim>\<open>{}\<close> used as records. A
  lookup \<^verbatim>\<open>obj[key]\<close> finds the object's own property of that name, or else the property
  that every object inherits from \<^verbatim>\<open>Object.prototype\<close>. The inherited properties belong
  to the JavaScript runtime of the browser, not to the program; \<open>objectPrototype\<close> lists
  their names, each with the \<^verbatim>\<open>length\<close> it carries (they are functions, except
  \<^verbatim>\<open>__proto__\<close>, which is the prototype object and has no \<^verbatim>\<open>length\<close>). Every one of them
  is truthy, and none has a property \<^verbatim>\<open>push\<close>, \<^verbatim>\<open>join\<close> or \<^verbatim>\<open>0\<close>.
\<close>

definition objectPrototype :: "(string \<times> nat option) list" where
  "objectPrototype =
     [(''constructor'', Some 1),
      (''__defineGetter__'', Some 2),
      (''__defineSetter__'', Some 2),
      (''hasOwnProperty'', Some 1),
      (''__lookupGetter__'', Some 1),
      (''__lookupSetter__'', Some 1),
      (''isPrototypeOf'', Some 1),
      (''propertyIsEnumerable'', Some 1),
      (''toString'', Some 0),
      (''valueOf'', Some 0),
      (''__proto__'', None),
      (''toLocaleString'', Some 0)]"

definition inherited :: "string \<Rightarrow> bool" where
  "inherited key \<longleftrightarrow> key \<in> set (map fst objectPrototype)"

datatype 'a Property = Own 'a | Inherited string

definition getProperty :: "(string \<rightharpoonup> 'a) \<Rightarrow> string \<Rightarrow> 'a Property option" where
  "getProperty obj key =
     (case obj key of
        Some v \<Rightarrow> Some (Own v)
      | None \<Rightarrow> if inherited key then Some (Inherited key) else None)"

text \<open>
  \<^verbatim>\<open>obj[key] = value\<close> for a string \<open>value\<close>: an own property, except under the key
  \<^verbatim>\<open>__proto__\<close>, where the assignment of a string changes nothing.
\<close>

definition setProperty :: "(string \<rightharpoonup> string) \<Rightarrow> string \<Rightarrow> string \<Rightarrow> (string \<rightharpoonup> string)" where
  "setProperty obj key v = (if key = ''__proto__'' then obj else obj(key \<mapsto> v))"

text \<open>
  What makes a promise of the listener fail: a \<^verbatim>\<open>TypeError\<close> thrown by the program's own
  code, or a rejection by the host.
\<close>

datatype Failure = TypeError | Rejected

text \<open>
  \<^verbatim>\<open>traverse(node, parentId)\<close> appends to the array \<^verbatim>\<open>folders\<close> and to the arrays of the
  record \<^verbatim>\<open>folderNameMap\<close>, which are the state passed along. \<^verbatim>\<open>!node.url\<close> holds for an
  absent and for an empty url. For a folder whose title names an inherited property that
  the record does not have of its own, \<^verbatim>\<open>!folderNameMap[node.title]\<close> is false, no array
  is made, and \<^verbatim>\<open>folderNameMap[node.title].push\<close> is not a function: the call throws a
  \<^verbatim>\<open>TypeError\<close>, which ends the traversal.
\<close>

fun traverse ::
  "BookmarkTreeNode \<Rightarrow> string option \<Rightarrow> Folder list \<times> (string \<rightharpoonup> string list)
     \<Rightarrow> Failure + Folder list \<times> (string \<rightharpoonup> string list)" where
  "traverse (Node i t u cs) parent (fs, m) =
     (case (if \<not> truthy u \<and> i \<noteq> ''0''
            then (case getProperty m t of
                    None \<Rightarrow> Inr (fs @ [\<lparr>f_id = i, f_name = t, parentId = parent\<rparr>], m(t \<mapsto> [i]))
                  | Some (Own ids) \<Rightarrow>
                      Inr (fs @ [\<lparr>f_id = i, f_name = t, parentId = parent\<rparr>], m(t \<mapsto> ids @ [i]))
                  | Some (Inherited k) \<Rightarrow> Inl TypeError)
            else Inr (fs, m)) of
        Inl e \<Rightarrow> Inl e
      | Inr st \<Rightarrow>
          (case cs of
             None \<Rightarrow> Inr st
           | Some kids \<Rightarrow>
               foldl (\<lambda>acc child. case acc of
                                     Inl e \<Rightarrow> Inl e
                                   | Inr a \<Rightarrow> traverse child (if i = ''0'' then None else Some i) a)
                 (Inr st) kids))"

text \<open>\<^verbatim>\<open>tree.forEach(node => traverse(node))\<close>, from the empty array and the empty record.\<close>

definition traverseTree ::
  "BookmarkTreeNode list \<Rightarrow> Failure + Folder list \<times> (string \<rightharpoonup> string list)" where
  "traverseTree tree =
     foldl (\<lambda>acc node. case acc of Inl e \<Rightarrow> Inl e | Inr a \<Rightarrow> traverse node None a)
       (Inr ([], Map.empty)) tree"

text \<open>
  The value of \<^verbatim>\<open>resolvedTargetId\<close>: declared \<^verbatim>\<open>string | undefined\<close>, it can also hold an
  inherited property that a lookup returned.
\<close>

datatype Target = Id string | Member string | Undefined

fun truthyTarget :: "Target \<Rightarrow> bool" where
  "truthyTarget (Id s) = (s \<noteq> [])"
| "truthyTarget (Member k) = True"
| "truthyTarget Undefined = False"

text \<open>The lines the callback writes to the console, each with the values it interpolates.\<close>

datatype Console =
  LogCreatedFolder string string
| WarnAmbiguous string "string list"
| LogMoved Target
| ErrorMoveFailed Target
| WarnUnresolved string

text \<open>
  The host bookmark store is outside the program: \<^verbatim>\<open>chrome.bookmarks.create\<close> and
  \<^verbatim>\<open>chrome.bookmarks.move\<close> are parameters that act on a store of any type \<open>'s\<close>.
  \<open>create s title parent\<close> is the new node's id and the new store, \<open>move s id parent\<close>
  the new store for the \<^verbatim>\<open>parentId\<close> it is given; \<open>None\<close> stands for a call that throws
  or a promise that is rejected.
\<close>

record 's Chrome =
  create :: "'s \<Rightarrow> string \<Rightarrow> string \<Rightarrow> (string \<times> 's) option"
  move :: "'s \<Rightarrow> string \<Rightarrow> Target \<Rightarrow> 's option"

text \<open>
  What the callback reads and writes between two actions: the record
  \<^verbatim>\<open>createdFolders\<close> (its own properties), the host store and the console.
\<close>

record 's Session =
  createdFolders :: "string \<rightharpoonup> string"
  store :: 's
  console :: "Console list"

text \<open>
  The resolution of \<^verbatim>\<open>targetFolderId\<close> in the \<^verbatim>\<open>MOVE_BOOKMARKS\<close> branch: the resolved value
  and the warning written on the way. \<^verbatim>\<open>if (createdFolders[targetFolderId])\<close> is a
  truthiness test, passed by a non-empty string and by an inherited property;
  \<^verbatim>\<open>if (folderNameMap[targetFolderId])\<close> is passed by every array and by an inherited
  property. For an array, \<^verbatim>\<open>ids[0]\<close> of the empty array is \<^verbatim>\<open>undefined\<close>. For an inherited
  property, \<^verbatim>\<open>ids[0]\<close> is \<^verbatim>\<open>undefined\<close> when its \<^verbatim>\<open>length\<close> is 1, and otherwise
  \<^verbatim>\<open>ids.join\<close> is not a function, so the template of the warning throws a \<^verbatim>\<open>TypeError\<close>
  before anything is written.
\<close>

definition resolveTarget ::
  "(string \<rightharpoonup> string) \<Rightarrow> (string \<rightharpoonup> string list) \<Rightarrow> string
     \<Rightarrow> Failure + Target \<times> Console list" where
  "resolveTarget created folderNameMap targetFolderId =
     (let fromIndex =
            (case getProperty folderNameMap targetFolderId of
               Some (Own ids) \<Rightarrow>
                 if length ids = 1 then Inr (Id (ids ! 0), [])
                 else Inr (case ids of [] \<Rightarrow> Undefined | first # _ \<Rightarrow> Id first,
                           [WarnAmbiguous targetFolderId ids])
             | Some (Inherited k) \<Rightarrow>
                 if map_of objectPrototype k = Some (Some 1) then Inr (Undefined, [])
                 else Inl TypeError
             | None \<Rightarrow> Inr (Id targetFolderId, []))
      in case getProperty created targetFolderId of
           Some (Own v) \<Rightarrow> if v \<noteq> [] then Inr (Id v, []) else fromIndex
         | Some (Inherited k) \<Rightarrow> Inr (Member k, [])
         | None \<Rightarrow> fromIndex)"

text \<open>
  The callback given to \<^verbatim>\<open>processCommand\<close>, for the new bookmark of id \<open>bookmark_id\<close>. It
  is an \<^verbatim>\<open>async\<close> function: a call runs it up to its first \<^verbatim>\<open>await\<close>, which is the call of
  the host, and the rest runs when the host has answered. \<open>beginAction\<close> is the first
  part, with what is left to do as a \<open>Continuation\<close>, and \<open>finishAction\<close> is the rest.
  A failure is a rejection of the callback's promise: the \<^verbatim>\<open>await\<close> of
  \<^verbatim>\<open>chrome.bookmarks.create\<close> and the resolution of the target are outside the \<^verbatim>\<open>try\<close>.
\<close>

datatype Continuation =
  AfterCreate string "string option"
| AfterMove Target bool
| Finished

definition beginAction ::
  "'s Chrome \<Rightarrow> string \<Rightarrow> (string \<rightharpoonup> string list) \<Rightarrow> Action \<Rightarrow> 's Session
     \<Rightarrow> Failure + 's Session \<times> Continuation" where
  "beginAction chrome bookmark_id folderNameMap action st =
     (case action of
        CreateFolder name parent \<Rightarrow>
          (let safeParentId = (if truthy parent then the parent else ''1'') in
           case create chrome (store st) name safeParentId of
             None \<Rightarrow> Inr (st, AfterCreate name None)
           | Some (newId, s') \<Rightarrow> Inr (st\<lparr>store := s'\<rparr>, AfterCreate name (Some newId)))
      | MoveBookmarks bookmarkIds targetFolderId \<Rightarrow>
          (case resolveTarget (createdFolders st) folderNameMap targetFolderId of
             Inl e \<Rightarrow> Inl e
           | Inr (resolvedTargetId, warnings) \<Rightarrow>
               if bookmark_id \<in> set bookmarkIds \<and> truthyTarget resolvedTargetId then
                 (case move chrome (store st) bookmark_id resolvedTargetId of
                    Some s' \<Rightarrow>
                      Inr (st\<lparr>store := s', console := console st @ warnings\<rparr>,
                           AfterMove resolvedTargetId True)
                  | None \<Rightarrow>
                      Inr (st\<lparr>console := console st @ warnings\<rparr>, AfterMove resolvedTargetId False))
               else Inr (st\<lparr>console := console st @ warnings @ [WarnUnresolved targetFolderId]\<rparr>,
                         Finished)))"

definition finishAction :: "Continuation \<Rightarrow> 's Session \<Rightarrow> Failure + 's Session" where
  "finishAction k st =
     (case k of
        AfterCreate name None \<Rightarrow> Inl Rejected
      | AfterCreate name (Some newId) \<Rightarrow>
          Inr (st\<lparr>console := console st @ [LogCreatedFolder name newId],
                  createdFolders := setProperty (createdFolders st) name newId\<rparr>)
      | AfterMove resolvedTargetId ok \<Rightarrow>
          Inr (st\<lparr>console := console st @
                    [if ok then LogMoved resolvedTargetId else ErrorMoveFailed resolvedTargetId]\<rparr>)
      | Finished \<Rightarrow> Inr st)"

text \<open>One call of the callback whose promise the caller awaits: both parts, one after the other.\<close>

definition handleAction ::
  "'s Chrome \<Rightarrow> string \<Rightarrow> (string \<rightharpoonup> string list) \<Rightarrow> Action \<Rightarrow> 's Session
     \<Rightarrow> Failure + 's Session" where
  "handleAction chrome bookmark_id folderNameMap action st =
     (case beginAction chrome bookmark_id folderNameMap action st of
        Inl e \<Rightarrow> Inl e
      | Inr (st1, k) \<Rightarrow> finishAction k st1)"


text \<open>
  The version of \<^verbatim>\<open>processCommand\<close> that is among the sources
  (src_original/services/gemini.ts, with three parameters) hands the actions to the
  callback in a \<^verbatim>\<open>for\<close> loop that does not await the callback's promise:
  \<^verbatim>\<open>onUpdate({ type: "MOVE_BOOKMARKS", payload: call.args })\<close>. With an \<^verbatim>\<open>async\<close> callback
  such a loop runs the first part of every call in turn, and the second parts only after
  the loop; a rejected promise is seen by no one. \<open>dispatchUnawaited\<close> is that order.
\<close>

definition beginAll ::
  "'s Chrome \<Rightarrow> string \<Rightarrow> (string \<rightharpoonup> string list) \<Rightarrow> Action list \<Rightarrow> 's Session
     \<Rightarrow> 's Session \<times> Continuation list" where
  "beginAll chrome bookmark_id folderNameMap actions st =
     foldl (\<lambda>acc action.
              case beginAction chrome bookmark_id folderNameMap action (fst acc) of
                Inl e \<Rightarrow> acc
              | Inr (st1, k) \<Rightarrow> (st1, snd acc @ [k]))
       (st, []) actions"

definition dispatchUnawaited ::
  "'s Chrome \<Rightarrow> string \<Rightarrow> (string \<rightharpoonup> string list) \<Rightarrow> Action list \<Rightarrow> 's Session \<Rightarrow> 's Session" where
  "dispatchUnawaited chrome bookmark_id folderNameMap actions st =
     (case beginAll chrome bookmark_id folderNameMap actions st of
        (st1, ks) \<Rightarrow>
          foldl (\<lambda>acc k. case finishAction k acc of Inl e \<Rightarrow> acc | Inr st2 \<Rightarrow> st2) st1 ks)"


text \<open>A fixed supply of identifiers for the examples: \<open>''x''\<close>, \<open>''xx''\<close>, \<open>''xxx''\<close>, ...\<close>

definition exampleIds :: "nat \<Rightarrow> string" where
  "exampleIds n = replicate (Suc n) CHR ''x''"

section \<open>Properties of the proposal application\<close>

subsection \<open>Assignments\<close>

lemma findIndex_Some: "findIndex P xs = Some i \<Longrightarrow> i < length xs \<and> P (xs ! i)"
  by (induction xs arbitrary: i) (auto split: if_splits)

lemma findIndex_None: "findIndex P xs = None \<Longrightarrow> \<forall>x \<in> set xs. \<not> P x"
  by (induction xs) (auto split: if_splits)

lemma length_applyAssignment [simp]: "length (applyAssignment pm bs a) = length bs"
  by (simp add: applyAssignment_def Let_def split: option.splits)

lemma applyAssignment_nth:
  assumes "i < length bs"
  shows "applyAssignment pm bs a ! i = bs ! i \<or>
         (applyAssignment pm bs a ! i = (bs ! i)\<lparr>folder := pm (folderPath a)\<rparr> \<and>
          truthy (pm (folderPath a)) \<and> b_id (bs ! i) = bookmarkId a)"
proof (cases "truthy (pm (folderPath a))")
  case False
  then show ?thesis by (simp add: applyAssignment_def)
next
  case True
  show ?thesis
  proof (cases "findIndex (\<lambda>b. b_id b = bookmarkId a) bs")
    case None
    with True show ?thesis by (simp add: applyAssignment_def)
  next
    case (Some j)
    from findIndex_Some [OF Some] have j: "j < length bs" "b_id (bs ! j) = bookmarkId a"
      by simp_all
    have "applyAssignment pm bs a = bs[j := (bs ! j)\<lparr>folder := pm (folderPath a)\<rparr>]"
      using True Some by (simp add: applyAssignment_def)
    with True j assms show ?thesis
      by (cases "i = j") simp_all
  qed
qed

lemma applyAssignment_skip:
  "\<not> truthy (pm (folderPath a)) \<Longrightarrow> applyAssignment pm bs a = bs"
  by (simp add: applyAssignment_def)

lemma length_applyAssignments [simp]:
  "length (foldl (applyAssignment pm) bs as) = length bs"
  by (induction as arbitrary: bs) auto

lemma applyAssignments_nth:
  assumes "i < length bs"
  shows "foldl (applyAssignment pm) bs as ! i = bs ! i \<or>
         (\<exists>a \<in> set as. foldl (applyAssignment pm) bs as ! i = (bs ! i)\<lparr>folder := pm (folderPath a)\<rparr> \<and>
          truthy (pm (folderPath a)) \<and> b_id (bs ! i) = bookmarkId a)"
  using assms
proof (induction as arbitrary: bs)
  case Nil
  then show ?case by simp
next
  case (Cons a as)
  let ?bs = "applyAssignment pm bs a"
  have i: "i < length ?bs" using Cons.prems by simp
  from applyAssignment_nth [OF Cons.prems, of pm a]
  show ?case
  proof
    assume same: "?bs ! i = bs ! i"
    with Cons.IH [OF i] show ?thesis by auto
  next
    assume ch: "?bs ! i = (bs ! i)\<lparr>folder := pm (folderPath a)\<rparr> \<and>
          truthy (pm (folderPath a)) \<and> b_id (bs ! i) = bookmarkId a"
    from Cons.IH [OF i] show ?thesis
    proof
      assume "foldl (applyAssignment pm) ?bs as ! i = ?bs ! i"
      with ch show ?thesis by auto
    next
      assume "\<exists>a' \<in> set as. foldl (applyAssignment pm) ?bs as ! i = (?bs ! i)\<lparr>folder := pm (folderPath a')\<rparr> \<and>
          truthy (pm (folderPath a')) \<and> b_id (?bs ! i) = bookmarkId a'"
      with ch show ?thesis by auto
    qed
  qed
qed

lemma applyAssignments_skip:
  assumes "\<not> truthy (pm (folderPath a))"
  shows "foldl (applyAssignment pm) bs (as1 @ a # as2) = foldl (applyAssignment pm) bs (as1 @ as2)"
  using assms by (simp add: applyAssignment_skip)

text \<open>
  The vocabulary of the claim about the bookmarks of the result. \<open>assignedTo pm bs as i\<close>
  lists, in the order of the proposal, the assignments that reach the bookmark at
  position \<open>i\<close>: those whose path resolves to a (truthy) folder id and whose
  \<^verbatim>\<open>findIndex\<close> is \<open>i\<close> (the first bookmark with the id they name). \<open>moved pm as b\<close>
  is \<open>b\<close> with its \<open>folder\<close> set by the last of these, and \<open>b\<close> itself when there
  is none.
\<close>

definition assignedTo ::
  "(string \<rightharpoonup> string) \<Rightarrow> Bookmark list \<Rightarrow> Assignment list \<Rightarrow> nat \<Rightarrow> Assignment list" where
  "assignedTo pm bs as i =
     filter (\<lambda>a. truthy (pm (folderPath a)) \<and> findIndex (\<lambda>b. b_id b = bookmarkId a) bs = Some i) as"

definition moved :: "(string \<rightharpoonup> string) \<Rightarrow> Assignment list \<Rightarrow> Bookmark \<Rightarrow> Bookmark" where
  "moved pm as b = (case as of [] \<Rightarrow> b | _ \<Rightarrow> b\<lparr>folder := pm (folderPath (last as))\<rparr>)"

lemma findIndex_ids:
  "map b_id bs' = map b_id bs \<Longrightarrow>
   findIndex (\<lambda>b. b_id b = x) bs' = findIndex (\<lambda>b. b_id b = x) bs"
proof (induction bs arbitrary: bs')
  case Nil
  then show ?case by simp
next
  case (Cons b bs)
  then obtain c cs where "bs' = c # cs" "b_id c = b_id b" "map b_id cs = map b_id bs"
    by (cases bs') auto
  with Cons.IH [of cs] show ?case by simp
qed

lemma ids_applyAssignment: "map b_id (applyAssignment pm bs a) = map b_id bs"
  by (auto simp: applyAssignment_def Let_def map_update list_update_same_conv
      dest: findIndex_Some split: option.splits)

lemma ids_applyAssignments: "map b_id (foldl (applyAssignment pm) bs as) = map b_id bs"
  by (induction as arbitrary: bs) (simp_all add: ids_applyAssignment)

lemma applyAssignments_moved:
  "i < length bs \<Longrightarrow>
   foldl (applyAssignment pm) bs as ! i = moved pm (assignedTo pm bs as i) (bs ! i)"
proof (induction as rule: rev_induct)
  case Nil
  then show ?case by (simp add: assignedTo_def moved_def)
next
  case (snoc a as)
  let ?cur = "foldl (applyAssignment pm) bs as"
  have cur: "?cur ! i = moved pm (assignedTo pm bs as i) (bs ! i)" using snoc by simp
  have fi: "findIndex (\<lambda>b. b_id b = bookmarkId a) ?cur = findIndex (\<lambda>b. b_id b = bookmarkId a) bs"
    by (rule findIndex_ids) (rule ids_applyAssignments)
  have len: "i < length ?cur" using snoc.prems by simp
  have upd: "moved pm xs b\<lparr>folder := f\<rparr> = b\<lparr>folder := f\<rparr>" for xs b f
    by (cases xs) (simp_all add: moved_def)
  show ?case
  proof (cases "truthy (pm (folderPath a)) \<and> findIndex (\<lambda>b. b_id b = bookmarkId a) bs = Some i")
    case True
    then have "applyAssignment pm ?cur a = ?cur[i := (?cur ! i)\<lparr>folder := pm (folderPath a)\<rparr>]"
      using fi by (simp add: applyAssignment_def)
    then have "foldl (applyAssignment pm) bs (as @ [a]) ! i = (?cur ! i)\<lparr>folder := pm (folderPath a)\<rparr>"
      using len by simp
    moreover have "assignedTo pm bs (as @ [a]) i = assignedTo pm bs as i @ [a]"
      using True by (simp add: assignedTo_def)
    moreover have "moved pm (xs @ [a]) b = b\<lparr>folder := pm (folderPath a)\<rparr>" for xs b
      by (cases xs) (simp_all add: moved_def)
    ultimately show ?thesis
      by (simp add: cur upd)
  next
    case False
    have "applyAssignment pm ?cur a ! i = ?cur ! i"
    proof (cases "truthy (pm (folderPath a))")
      case nt: False
      then show ?thesis by (simp add: applyAssignment_def)
    next
      case True
      show ?thesis
      proof (cases "findIndex (\<lambda>b. b_id b = bookmarkId a) bs")
        case None
        with True fi show ?thesis by (simp add: applyAssignment_def)
      next
        case (Some j)
        with False True have "j \<noteq> i" by auto
        with True Some fi show ?thesis by (simp add: applyAssignment_def)
      qed
    qed
    moreover have "assignedTo pm bs (as @ [a]) i = assignedTo pm bs as i"
      using False by (auto simp: assignedTo_def)
    ultimately show ?thesis by (simp add: cur)
  qed
qed

text \<open>
  Claim C2. Applying a proposal to a library returns a library whose folders are exactly
  the folders synthesized from the proposal's paths (the expression does not mention the
  prior folders: none is kept or merged), and whose bookmarks are the original sequence,
  position by position: a bookmark reached by an assignment with a resolvable path has
  its \<open>folder\<close> set to the id recorded for the path of the last such assignment and
  nothing else changed, and a bookmark that no such assignment reaches is returned as it
  was, whatever the new folder sequence holds.
\<close>

theorem applySuggestion_replaces_folders_keeps_bookmarks:
  fixes rnd s l
  defines "r \<equiv> resolvePaths rnd (map path (p_folders s))"
  shows "\<exists>l'. applySuggestion rnd (Some s) (Some l) = Some l' \<and>
           folders l' = newFolders r \<and>
           length (bookmarks l') = length (bookmarks l) \<and>
           (\<forall>i < length (bookmarks l).
              bookmarks l' ! i =
                moved (pathMap r) (assignedTo (pathMap r) (bookmarks l) (assignments s) i)
                  (bookmarks l ! i))"
  by (simp add: applySuggestion_def r_def Let_def applyAssignments_moved)

text \<open>
  A library of three bookmarks and the folder \<open>OldFolder\<close>, and a proposal of the
  folders \<open>X\<close> and \<open>Y\<close>: the first bookmark is assigned to \<open>X\<close> and then to
  \<open>Y\<close>, the second to a path the proposal does not declare, the third is not
  mentioned. The result has the folders \<open>X\<close> and \<open>Y\<close> only; the first bookmark is
  in \<open>Y\<close>, and the other two still point to the id \<open>''old''\<close>, which no folder
  carries any more.
\<close>

theorem applySuggestion_replaces_folders_keeps_bookmarks_witness:
  "applySuggestion exampleIds
     (Some \<lparr>p_folders = [\<lparr>path = ''X'', description = []\<rparr>, \<lparr>path = ''Y'', description = []\<rparr>],
            assignments = [\<lparr>bookmarkId = ''b1'', folderPath = ''X''\<rparr>,
                           \<lparr>bookmarkId = ''b2'', folderPath = ''Z''\<rparr>,
                           \<lparr>bookmarkId = ''b1'', folderPath = ''Y''\<rparr>],
            reasoning = []\<rparr>)
     (Some \<lparr>bookmarks = [\<lparr>b_id = ''b1'', title = ''T1'', url = ''u1'', addDate = None, icon = None,
                            tags = None, folder = None\<rparr>,
                          \<lparr>b_id = ''b2'', title = ''T2'', url = ''u2'', addDate = None, icon = None,
                            tags = None, folder = Some ''old''\<rparr>,
                          \<lparr>b_id = ''b3'', title = ''T3'', url = ''u3'', addDate = None, icon = None,
                            tags = None, folder = Some ''old''\<rparr>],
            folders = [\<lparr>f_id = ''old'', f_name = ''OldFolder'', parentId = None\<rparr>]\<rparr>)
   = Some \<lparr>bookmarks = [\<lparr>b_id = ''b1'', title = ''T1'', url = ''u1'', addDate = None, icon = None,
                            tags = None, folder = Some ''xx''\<rparr>,
                          \<lparr>b_id = ''b2'', title = ''T2'', url = ''u2'', addDate = None, icon = None,
                            tags = None, folder = Some ''old''\<rparr>,
                          \<lparr>b_id = ''b3'', title = ''T3'', url = ''u3'', addDate = None, icon = None,
                            tags = None, folder = Some ''old''\<rparr>],
            folders = [\<lparr>f_id = ''x'', f_name = ''X'', parentId = None\<rparr>,
                       \<lparr>f_id = ''xx'', f_name = ''Y'', parentId = None\<rparr>]\<rparr>"
proof -
  let ?a1 = "\<lparr>bookmarkId = ''b1'', folderPath = ''X''\<rparr>"
  let ?a2 = "\<lparr>bookmarkId = ''b2'', folderPath = ''Z''\<rparr>"
  let ?a3 = "\<lparr>bookmarkId = ''b1'', folderPath = ''Y''\<rparr>"
  let ?s = "\<lparr>p_folders = [\<lparr>path = ''X'', description = []\<rparr>, \<lparr>path = ''Y'', description = []\<rparr>],
            assignments = [?a1, ?a2, ?a3], reasoning = []\<rparr>"
  let ?b1 = "\<lparr>b_id = ''b1'', title = ''T1'', url = ''u1'', addDate = None, icon = None,
                            tags = None, folder = None\<rparr>"
  let ?b2 = "\<lparr>b_id = ''b2'', title = ''T2'', url = ''u2'', addDate = None, icon = None,
                            tags = None, folder = Some ''old''\<rparr>"
  let ?b3 = "\<lparr>b_id = ''b3'', title = ''T3'', url = ''u3'', addDate = None, icon = None,
                            tags = None, folder = Some ''old''\<rparr>"
  let ?l = "\<lparr>bookmarks = [?b1, ?b2, ?b3],
            folders = [\<lparr>f_id = ''old'', f_name = ''OldFolder'', parentId = None\<rparr>]\<rparr>"
  let ?bs = "[?b1, ?b2, ?b3]"
  let ?as = "[?a1, ?a2, ?a3]"
  let ?r = "resolvePaths exampleIds [''X'', ''Y'']"
  have folders: "newFolders ?r = [\<lparr>f_id = ''x'', f_name = ''X'', parentId = None\<rparr>,
                       \<lparr>f_id = ''xx'', f_name = ''Y'', parentId = None\<rparr>]"
    by (simp add: resolvePaths_def resolvePath_def resolvePart_def exampleIds_def Let_def)
  have pm: "pathMap ?r ''X'' = Some ''x''" "pathMap ?r ''Y'' = Some ''xx''" "pathMap ?r ''Z'' = None"
    by (simp_all add: resolvePaths_def resolvePath_def resolvePart_def exampleIds_def Let_def)
  have reach: "assignedTo (pathMap ?r) ?bs ?as 0 = [?a1, ?a3]"
    "assignedTo (pathMap ?r) ?bs ?as 1 = []"
    "assignedTo (pathMap ?r) ?bs ?as 2 = []"
    by (simp_all add: assignedTo_def pm)
  from applySuggestion_replaces_folders_keeps_bookmarks [of exampleIds ?s ?l]
  obtain l' where res: "applySuggestion exampleIds (Some ?s) (Some ?l) = Some l'"
    and fs: "folders l' = newFolders (resolvePaths exampleIds (map path (p_folders ?s)))"
    and len: "length (bookmarks l') = length (bookmarks ?l)"
    and each: "\<forall>i < length (bookmarks ?l). bookmarks l' ! i =
        moved (pathMap (resolvePaths exampleIds (map path (p_folders ?s))))
          (assignedTo (pathMap (resolvePaths exampleIds (map path (p_folders ?s))))
             (bookmarks ?l) (assignments ?s) i)
          (bookmarks ?l ! i)"
    by blast
  have "bookmarks l' ! 0 = ?b1\<lparr>folder := Some ''xx''\<rparr> \<and> bookmarks l' ! 1 = ?b2 \<and>
      bookmarks l' ! 2 = ?b3"
    using each reach pm by (simp add: moved_def All_less_Suc numeral_2_eq_2)
  moreover have "length (bookmarks l') = 3" using len by simp
  ultimately have "bookmarks l' = [?b1\<lparr>folder := Some ''xx''\<rparr>, ?b2, ?b3]"
    by (intro nth_equalityI) (auto simp: less_Suc_eq numeral_3_eq_3 numeral_2_eq_2)
  moreover have "folders l' = [\<lparr>f_id = ''x'', f_name = ''X'', parentId = None\<rparr>,
                       \<lparr>f_id = ''xx'', f_name = ''Y'', parentId = None\<rparr>]"
    using fs folders by simp
  ultimately show ?thesis using res by (cases l') simp
qed

text \<open>
  Claim C7. An assignment whose \<open>folderPath\<close> is not a key of the resolver's mapping is
  skipped: its step leaves the array of bookmarks as it finds it, so the bookmark it
  names keeps the folder it had; the proposal gives the same library as the proposal
  without that entry, so no error is raised and every other assignment is applied as
  before; and when no other assignment names the same bookmark, that bookmark is
  returned as it was in the input library.
\<close>

theorem applySuggestion_skips_unresolved_assignment:
  fixes rnd s l a as1 as2
  defines "pm \<equiv> pathMap (resolvePaths rnd (map path (p_folders s)))"
  assumes unresolved: "pm (folderPath a) = None"
    and split: "assignments s = as1 @ a # as2"
  shows "applyAssignment pm updatedBookmarks a = updatedBookmarks \<and>
         applySuggestion rnd (Some s) (Some l)
           = applySuggestion rnd (Some (s\<lparr>assignments := as1 @ as2\<rparr>)) (Some l) \<and>
         (\<exists>l'. applySuggestion rnd (Some s) (Some l) = Some l' \<and>
            (\<forall>i < length (bookmarks l).
               b_id (bookmarks l ! i) = bookmarkId a \<longrightarrow>
               (\<forall>a' \<in> set (as1 @ as2). bookmarkId a' \<noteq> bookmarkId a) \<longrightarrow>
               bookmarks l' ! i = bookmarks l ! i))"
proof -
  let ?bs' = "foldl (applyAssignment pm) (bookmarks l) (assignments s)"
  let ?l' = "\<lparr>bookmarks = ?bs', folders = newFolders (resolvePaths rnd (map path (p_folders s)))\<rparr>"
  have nt: "\<not> truthy (pm (folderPath a))"
    using unresolved by simp
  have res: "applySuggestion rnd (Some s) (Some l) = Some ?l'"
    by (simp add: applySuggestion_def pm_def Let_def)
  have eq: "applySuggestion rnd (Some s) (Some l)
           = applySuggestion rnd (Some (s\<lparr>assignments := as1 @ as2\<rparr>)) (Some l)"
    using applyAssignments_skip [of pm a "bookmarks l" as1 as2] nt split
    by (simp add: applySuggestion_def pm_def Let_def)
  have keep: "?bs' ! i = bookmarks l ! i"
    if i: "i < length (bookmarks l)" and "b_id (bookmarks l ! i) = bookmarkId a"
      and others: "\<forall>a' \<in> set (as1 @ as2). bookmarkId a' \<noteq> bookmarkId a" for i
  proof -
    have "?bs' = foldl (applyAssignment pm) (bookmarks l) (as1 @ as2)"
      using applyAssignments_skip [of pm a "bookmarks l" as1 as2] nt split by simp
    moreover from applyAssignments_nth [OF i, of pm "as1 @ as2"] that
    have "foldl (applyAssignment pm) (bookmarks l) (as1 @ as2) ! i = bookmarks l ! i"
      by auto
    ultimately show ?thesis by simp
  qed
  have "\<exists>l'. applySuggestion rnd (Some s) (Some l) = Some l' \<and>
            (\<forall>i < length (bookmarks l).
               b_id (bookmarks l ! i) = bookmarkId a \<longrightarrow>
               (\<forall>a' \<in> set (as1 @ as2). bookmarkId a' \<noteq> bookmarkId a) \<longrightarrow>
               bookmarks l' ! i = bookmarks l ! i)"
  proof (intro exI conjI allI impI)
    show "applySuggestion rnd (Some s) (Some l) = Some ?l'" by (rule res)
  next
    fix i
    assume "i < length (bookmarks l)" "b_id (bookmarks l ! i) = bookmarkId a"
      "\<forall>a' \<in> set (as1 @ as2). bookmarkId a' \<noteq> bookmarkId a"
    then show "bookmarks ?l' ! i = bookmarks l ! i"
      using keep by simp
  qed
  moreover have "applyAssignment pm updatedBookmarks a = updatedBookmarks"
    using nt by (rule applyAssignment_skip)
  ultimately show ?thesis using eq by blast
qed

theorem applySuggestion_skips_unresolved_assignment_witness:
  "applySuggestion exampleIds
     (Some \<lparr>p_folders = [\<lparr>path = ''X'', description = []\<rparr>],
            assignments = [\<lparr>bookmarkId = ''b1'', folderPath = ''Y''\<rparr>,
                           \<lparr>bookmarkId = ''b2'', folderPath = ''X''\<rparr>],
            reasoning = []\<rparr>)
     (Some \<lparr>bookmarks = [\<lparr>b_id = ''b1'', title = ''T'', url = ''u'', addDate = None, icon = None,
                            tags = None, folder = Some ''old''\<rparr>,
                          \<lparr>b_id = ''b2'', title = ''T2'', url = ''u2'', addDate = None, icon = None,
                            tags = None, folder = None\<rparr>],
            folders = []\<rparr>)
   = Some \<lparr>bookmarks = [\<lparr>b_id = ''b1'', title = ''T'', url = ''u'', addDate = None, icon = None,
                            tags = None, folder = Some ''old''\<rparr>,
                          \<lparr>b_id = ''b2'', title = ''T2'', url = ''u2'', addDate = None, icon = None,
                            tags = None, folder = Some ''x''\<rparr>],
            folders = [\<lparr>f_id = ''x'', f_name = ''X'', parentId = None\<rparr>]\<rparr>"
proof -
  let ?a = "\<lparr>bookmarkId = ''b1'', folderPath = ''Y''\<rparr>"
  let ?a2 = "\<lparr>bookmarkId = ''b2'', folderPath = ''X''\<rparr>"
  let ?s = "\<lparr>p_folders = [\<lparr>path = ''X'', description = []\<rparr>],
            assignments = [?a, ?a2], reasoning = []\<rparr>"
  have unresolved:
    "pathMap (resolvePaths exampleIds (map path (p_folders ?s))) (folderPath ?a) = None"
    by (simp add: resolvePaths_def resolvePath_def resolvePart_def exampleIds_def Let_def)
  have split: "assignments ?s = [] @ ?a # [?a2]"
    by simp
  from applySuggestion_skips_unresolved_assignment [OF unresolved split]
  show ?thesis
    by (simp add: applySuggestion_def resolvePaths_def resolvePath_def resolvePart_def
        applyAssignment_def exampleIds_def Let_def)
qed

subsection \<open>The path resolver\<close>

text \<open>
  The vocabulary of the claims about the path resolver. \<open>joinPath\<close> puts segments
  together with slashes, so that \<open>prefixPaths ''A/B/C''\<close> is \<open>[''A'', ''A/B'', ''A/B/C'']\<close>:
  the accumulated prefixes of a path, shortest first. \<open>parentKey\<close> is the
  immediately shorter prefix of a key (none for a single segment) and \<open>lastSegment\<close>
  its final segment. \<open>resolverInv r ks\<close> is the invariant of the resolver's loops:
  \<open>ks\<close> lists the keys of \<open>pathMap\<close> in the order of their creation, and the
  \<open>i\<close>-th folder of \<open>newFolders\<close> is the one made for the \<open>i\<close>-th key.
  \<open>accumKeys cp ss\<close> lists the keys the inner loop visits from the accumulated
  path \<open>cp\<close> on.
\<close>

fun joinPath :: "string list \<Rightarrow> string" where
  "joinPath [] = []"
| "joinPath [x] = x"
| "joinPath (x # y # ys) = x @ ''/'' @ joinPath (y # ys)"

definition prefixPaths :: "string \<Rightarrow> string list" where
  "prefixPaths p =
     map (\<lambda>j. joinPath (take j (split CHR ''/'' p))) [1 ..< Suc (length (split CHR ''/'' p))]"

definition parentKey :: "string \<Rightarrow> string option" where
  "parentKey k =
     (let segs = split CHR ''/'' k
      in if length segs \<le> 1 then None else Some (joinPath (butlast segs)))"

definition lastSegment :: "string \<Rightarrow> string" where
  "lastSegment k = last (split CHR ''/'' k)"

definition resolverInv :: "resolver \<Rightarrow> string list \<Rightarrow> bool" where
  "resolverInv r ks \<longleftrightarrow>
     distinct ks \<and> length (newFolders r) = length ks \<and> dom (pathMap r) = set ks \<and>
     (\<forall>i < length ks.
        pathMap r (ks ! i) = Some (f_id (newFolders r ! i)) \<and>
        f_name (newFolders r ! i) = lastSegment (ks ! i) \<and>
        parentId (newFolders r ! i) =
          (case parentKey (ks ! i) of None \<Rightarrow> None | Some q \<Rightarrow> pathMap r q) \<and>
        (\<forall>q. parentKey (ks ! i) = Some q \<longrightarrow> q \<in> set ks))"

fun accumKeys :: "string \<Rightarrow> string list \<Rightarrow> string list" where
  "accumKeys cp [] = []"
| "accumKeys cp (s # ss) =
     (let k = (if cp \<noteq> [] then cp @ ''/'' @ s else s) in k # accumKeys k ss)"

lemma split_nonempty [simp]: "split c s \<noteq> []"
  by (induction s) (auto split: list.splits)

lemma split_no_sep: "x \<in> set (split c s) \<Longrightarrow> c \<notin> set x"
  by (induction s arbitrary: x) (auto split: list.splits if_splits)

lemma split_plain: "c \<notin> set s \<Longrightarrow> split c s = [s]"
  by (induction s) auto

lemma split_append_sep: "c \<notin> set s \<Longrightarrow> split c (s @ c # t) = s # split c t"
  by (induction s) auto

lemma joinPath_Cons: "ys \<noteq> [] \<Longrightarrow> joinPath (x # ys) = x @ ''/'' @ joinPath ys"
  by (cases ys) auto

lemma joinPath_snoc: "xs \<noteq> [] \<Longrightarrow> joinPath (xs @ [y]) = joinPath xs @ ''/'' @ y"
  by (induction xs rule: joinPath.induct) auto

lemma split_joinPath:
  "segs \<noteq> [] \<Longrightarrow> \<forall>x \<in> set segs. CHR ''/'' \<notin> set x \<Longrightarrow> split CHR ''/'' (joinPath segs) = segs"
proof (induction segs rule: joinPath.induct)
  case 1
  then show ?case by simp
next
  case (2 x)
  then show ?case by (simp add: split_plain)
next
  case (3 x y ys)
  then show ?case using split_append_sep [of "CHR ''/''" x "joinPath (y # ys)"] by simp
qed

lemma joinPath_split: "joinPath (split CHR ''/'' s) = s"
proof (induction s)
  case Nil
  then show ?case by simp
next
  case (Cons x xs)
  show ?case
  proof (cases "x = CHR ''/''")
    case True
    then show ?thesis using Cons by (simp add: joinPath_Cons)
  next
    case False
    obtain y ys where sp: "split CHR ''/'' xs = y # ys"
      by (cases "split CHR ''/'' xs") (auto dest: split_nonempty [THEN notE])
    with Cons False show ?thesis
      by (cases ys) auto
  qed
qed

lemma key_first: "CHR ''/'' \<notin> set part \<Longrightarrow> parentKey part = None \<and> lastSegment part = part"
  by (simp add: parentKey_def lastSegment_def split_plain)

lemma key_next:
  assumes "CHR ''/'' \<notin> set part" "cp \<noteq> []"
  shows "parentKey (cp @ ''/'' @ part) = Some cp \<and> lastSegment (cp @ ''/'' @ part) = part"
proof -
  let ?segs = "split CHR ''/'' cp"
  have "cp @ ''/'' @ part = joinPath (?segs @ [part])"
    by (simp add: joinPath_snoc joinPath_split)
  moreover have "split CHR ''/'' (joinPath (?segs @ [part])) = ?segs @ [part]"
    using assms(1) by (intro split_joinPath) (auto dest: split_no_sep)
  ultimately have "split CHR ''/'' (cp @ ''/'' @ part) = ?segs @ [part]"
    by simp
  then show ?thesis
    by (simp add: parentKey_def lastSegment_def joinPath_split)
qed

lemma resolvePart_step:
  assumes inv: "resolverInv r ks"
    and part: "CHR ''/'' \<notin> set part"
    and ctx: "(cp = [] \<and> cpid = None) \<or> (cp \<noteq> [] \<and> cp \<in> set ks \<and> cpid = pathMap r cp)"
  defines "k \<equiv> (if cp \<noteq> [] then cp @ ''/'' @ part else part)"
  shows "\<exists>r' ks'. resolvePart rnd (r, cpid, cp) part = (r', pathMap r' k, k) \<and>
           resolverInv r' ks' \<and> set ks' = insert k (set ks)"
proof -
  have pk: "parentKey k = (if cp \<noteq> [] then Some cp else None)" and ls: "lastSegment k = part"
    using key_first [OF part] key_next [OF part] by (auto simp: k_def)
  show ?thesis
  proof (cases "pathMap r k = None")
    case False
    then have "k \<in> set ks" using inv by (auto simp: resolverInv_def)
    moreover have "resolvePart rnd (r, cpid, cp) part = (r, pathMap r k, k)"
      using False by (simp add: resolvePart_def k_def Let_def)
    ultimately show ?thesis using inv by (auto simp: insert_absorb)
  next
    case True
    then have knew: "k \<notin> set ks" using inv by (auto simp: resolverInv_def)
    let ?f = "\<lparr>f_id = rnd (drawn r), f_name = part, parentId = cpid\<rparr>"
    let ?r' = "r\<lparr>newFolders := newFolders r @ [?f],
                 pathMap := (pathMap r)(k \<mapsto> rnd (drawn r)),
                 drawn := Suc (drawn r)\<rparr>"
    have res: "resolvePart rnd (r, cpid, cp) part = (?r', pathMap ?r' k, k)"
      using True by (simp add: resolvePart_def k_def Let_def)
    have len: "length (newFolders r) = length ks" using inv by (simp add: resolverInv_def)
    have "resolverInv ?r' (ks @ [k])"
      unfolding resolverInv_def
    proof (intro conjI allI impI)
      show "distinct (ks @ [k])" using inv knew by (simp add: resolverInv_def)
      show "length (newFolders ?r') = length (ks @ [k])" using len by simp
      show "dom (pathMap ?r') = set (ks @ [k])" using inv by (auto simp: resolverInv_def)
    next
      fix i assume i: "i < length (ks @ [k])"
      show "pathMap ?r' ((ks @ [k]) ! i) = Some (f_id (newFolders ?r' ! i))"
        using inv i knew len by (cases "i < length ks") (auto simp: resolverInv_def nth_append)
      show "f_name (newFolders ?r' ! i) = lastSegment ((ks @ [k]) ! i)"
        using inv i len ls by (cases "i < length ks") (auto simp: resolverInv_def nth_append)
      show "parentId (newFolders ?r' ! i) =
          (case parentKey ((ks @ [k]) ! i) of None \<Rightarrow> None | Some q \<Rightarrow> pathMap ?r' q)"
      proof (cases "i < length ks")
        case True
        then have old: "parentId (newFolders r ! i) =
          (case parentKey (ks ! i) of None \<Rightarrow> None | Some q \<Rightarrow> pathMap r q)"
          and cl: "\<forall>q. parentKey (ks ! i) = Some q \<longrightarrow> q \<in> set ks"
          using inv by (auto simp: resolverInv_def)
        show ?thesis
          using True old cl knew len by (auto simp: nth_append split: option.splits)
      next
        case False
        then have "i = length ks" using i by simp
        then show ?thesis
          using ctx knew len pk by (auto simp: nth_append)
      qed
    next
      fix i q assume i: "i < length (ks @ [k])" and q: "parentKey ((ks @ [k]) ! i) = Some q"
      show "q \<in> set (ks @ [k])"
      proof (cases "i < length ks")
        case True
        then show ?thesis using inv q by (auto simp: resolverInv_def nth_append)
      next
        case False
        then have "i = length ks" using i by simp
        then show ?thesis using q pk ctx by (auto simp: nth_append split: if_splits)
      qed
    qed
    with res show ?thesis by (intro exI [of _ ?r'] exI [of _ "ks @ [k]"]) simp
  qed
qed


lemma resolveParts_fold:
  assumes "resolverInv r ks"
    and "\<forall>s \<in> set ss. CHR ''/'' \<notin> set s"
    and "(cp = [] \<and> cpid = None) \<or> (cp \<noteq> [] \<and> cp \<in> set ks \<and> cpid = pathMap r cp)"
    and "cp = [] \<longrightarrow> ss \<noteq> [] \<longrightarrow> hd ss \<noteq> [] \<or> tl ss = []"
  shows "\<exists>ks'. resolverInv (fst (foldl (resolvePart rnd) (r, cpid, cp) ss)) ks' \<and>
           set ks' = set ks \<union> set (accumKeys cp ss)"
  using assms
proof (induction ss arbitrary: r ks cp cpid)
  case Nil
  then show ?case by auto
next
  case (Cons s ss)
  let ?k = "if cp \<noteq> [] then cp @ ''/'' @ s else s"
  from Cons.prems(2) have s: "CHR ''/'' \<notin> set s" by simp
  from resolvePart_step [OF Cons.prems(1) s Cons.prems(3), of rnd]
  obtain r1 ks1 where step: "resolvePart rnd (r, cpid, cp) s = (r1, pathMap r1 ?k, ?k)"
    and inv1: "resolverInv r1 ks1" and set1: "set ks1 = insert ?k (set ks)"
    by auto
  show ?case
  proof (cases "ss = []")
    case True
    with step inv1 set1 show ?thesis
      by (intro exI [of _ ks1]) (auto simp: Let_def)
  next
    case False
    have kne: "?k \<noteq> []" using Cons.prems(4) False by auto
    have ctx1: "(?k = [] \<and> pathMap r1 ?k = None) \<or>
              (?k \<noteq> [] \<and> ?k \<in> set ks1 \<and> pathMap r1 ?k = pathMap r1 ?k)"
      using kne set1 by simp
    from Cons.IH [OF inv1 _ ctx1] Cons.prems(2) kne
    obtain ks' where "resolverInv (fst (foldl (resolvePart rnd) (r1, pathMap r1 ?k, ?k) ss)) ks'"
      and "set ks' = set ks1 \<union> set (accumKeys ?k ss)"
      by auto
    with step set1 show ?thesis
      by (intro exI [of _ ks']) (auto simp: Let_def)
  qed
qed

lemma accumKeys_joined:
  assumes "pre \<noteq> []" "joinPath pre \<noteq> []"
  shows "accumKeys (joinPath pre) ss =
           map (\<lambda>j. joinPath (pre @ take j ss)) [1 ..< Suc (length ss)]"
  using assms
proof (induction ss arbitrary: pre)
  case Nil
  then show ?case by simp
next
  case (Cons s ss)
  have k: "joinPath pre @ ''/'' @ s = joinPath (pre @ [s])"
    using Cons.prems(1) by (simp add: joinPath_snoc)
  have "joinPath (pre @ [s]) \<noteq> []"
    using k [symmetric] by simp
  from Cons.IH [OF _ this]
  have IH: "accumKeys (joinPath (pre @ [s])) ss =
           map (\<lambda>j. joinPath (pre @ s # take j ss)) [1 ..< Suc (length ss)]"
    by simp
  have "[1 ..< Suc (length (s # ss))] = 1 # map Suc [1 ..< Suc (length ss)]"
    by (simp add: upt_conv_Cons map_Suc_upt del: upt_Suc)
  then show ?case
    using Cons.prems(2) k IH by (simp add: Let_def comp_def del: upt_Suc)
qed

lemma accumKeys_prefixPaths:
  assumes "p = [] \<or> hd (split CHR ''/'' p) \<noteq> []"
  shows "accumKeys [] (split CHR ''/'' p) = prefixPaths p"
proof (cases "p = []")
  case True
  then show ?thesis by (simp add: prefixPaths_def)
next
  case False
  obtain s ss where sp: "split CHR ''/'' p = s # ss"
    by (cases "split CHR ''/'' p") (auto dest: split_nonempty [THEN notE])
  with assms False have s: "s \<noteq> []" by simp
  have "accumKeys (joinPath [s]) ss = map (\<lambda>j. joinPath ([s] @ take j ss)) [1 ..< Suc (length ss)]"
    using s by (intro accumKeys_joined) simp_all
  moreover have "[1 ..< Suc (length (s # ss))] = 1 # map Suc [1 ..< Suc (length ss)]"
    by (simp add: upt_conv_Cons map_Suc_upt del: upt_Suc)
  ultimately show ?thesis
    using s sp by (simp add: prefixPaths_def Let_def comp_def del: upt_Suc)
qed

lemma resolvePath_inv:
  assumes "resolverInv r ks" "p = [] \<or> hd (split CHR ''/'' p) \<noteq> []"
  shows "\<exists>ks'. resolverInv (resolvePath rnd r p) ks' \<and> set ks' = set ks \<union> set (prefixPaths p)"
proof -
  have "hd (split CHR ''/'' p) \<noteq> [] \<or> tl (split CHR ''/'' p) = []"
    using assms(2) by auto
  then have "\<exists>ks'. resolverInv (fst (foldl (resolvePart rnd) (r, None, []) (split CHR ''/'' p))) ks' \<and>
           set ks' = set ks \<union> set (accumKeys [] (split CHR ''/'' p))"
    using assms(1) by (intro resolveParts_fold) (auto dest: split_no_sep)
  then show ?thesis
    using assms(2) by (simp add: resolvePath_def accumKeys_prefixPaths)
qed

lemma resolvePaths_fold_inv:
  assumes "resolverInv r ks" "\<forall>p \<in> set ps. p = [] \<or> hd (split CHR ''/'' p) \<noteq> []"
  shows "\<exists>ks'. resolverInv (foldl (resolvePath rnd) r ps) ks' \<and>
           set ks' = set ks \<union> (\<Union>p \<in> set ps. set (prefixPaths p))"
  using assms
proof (induction ps arbitrary: r ks)
  case Nil
  then show ?case by auto
next
  case (Cons p ps)
  from resolvePath_inv [OF Cons.prems(1), of p rnd] Cons.prems(2)
  obtain ks1 where inv1: "resolverInv (resolvePath rnd r p) ks1"
    and set1: "set ks1 = set ks \<union> set (prefixPaths p)"
    by auto
  from Cons.IH [OF inv1] Cons.prems(2)
  obtain ks' where "resolverInv (foldl (resolvePath rnd) (resolvePath rnd r p) ps) ks'"
    and "set ks' = set ks1 \<union> (\<Union>p \<in> set ps. set (prefixPaths p))"
    by auto
  with set1 show ?case
    by (intro exI [of _ ks']) auto
qed

lemma hd_split: "hd (split c p) = takeWhile (\<lambda>x. x \<noteq> c) p"
  by (induction p) (auto split: list.splits)

lemma first_segment_nonempty:
  "hd (split c p) \<noteq> [] \<longleftrightarrow> p \<noteq> [] \<and> hd p \<noteq> c"
  unfolding hd_split by (cases p) auto

lemma resolverInv_initial: "resolverInv \<lparr>newFolders = [], pathMap = Map.empty, drawn = 0\<rparr> []"
  by (simp add: resolverInv_def)

text \<open>
  For every list of paths none of which begins with a slash, the resolver creates exactly
  one folder per distinct accumulated prefix path of the inputs: the keys of \<open>pathMap\<close>
  are these prefixes, there are as many folders as prefixes, and the folders can be
  matched to the prefixes one to one so that each folder carries the id recorded for its
  prefix, the prefix's last segment as its name, and as \<open>parentId\<close> the id recorded for
  the immediately shorter prefix, none for a prefix of one segment. The empty path is
  among them: its one prefix is the empty string.
\<close>

lemma resolvePaths_without_leading_slash:
  fixes rnd ps
  defines "r \<equiv> resolvePaths rnd ps"
    and "K \<equiv> (\<Union>p \<in> set ps. set (prefixPaths p))"
  assumes wf: "\<forall>p \<in> set ps. p = [] \<or> hd p \<noteq> CHR ''/''"
  shows "length (newFolders r) = card K \<and> dom (pathMap r) = K \<and>
         (\<exists>ks. distinct ks \<and> set ks = K \<and> length ks = length (newFolders r) \<and>
            (\<forall>i < length ks.
               pathMap r (ks ! i) = Some (f_id (newFolders r ! i)) \<and>
               f_name (newFolders r ! i) = lastSegment (ks ! i) \<and>
               parentId (newFolders r ! i) =
                 (case parentKey (ks ! i) of None \<Rightarrow> None | Some q \<Rightarrow> pathMap r q) \<and>
               (\<forall>q. parentKey (ks ! i) = Some q \<longrightarrow> q \<in> K)))"
proof -
  have "\<forall>p \<in> set ps. p = [] \<or> hd (split CHR ''/'' p) \<noteq> []"
    using wf by (auto simp: first_segment_nonempty)
  from resolvePaths_fold_inv [OF resolverInv_initial this, of rnd]
  obtain ks where inv: "resolverInv r ks" and ks: "set ks = K"
    by (auto simp: r_def K_def resolvePaths_def)
  from inv have d: "distinct ks" and len: "length (newFolders r) = length ks"
    and dm: "dom (pathMap r) = set ks"
    and each: "\<forall>i < length ks.
        pathMap r (ks ! i) = Some (f_id (newFolders r ! i)) \<and>
        f_name (newFolders r ! i) = lastSegment (ks ! i) \<and>
        parentId (newFolders r ! i) =
          (case parentKey (ks ! i) of None \<Rightarrow> None | Some q \<Rightarrow> pathMap r q) \<and>
        (\<forall>q. parentKey (ks ! i) = Some q \<longrightarrow> q \<in> set ks)"
    by (simp_all add: resolverInv_def)
  have "length (newFolders r) = card K"
    using d len ks distinct_card [of ks] by simp
  moreover have "dom (pathMap r) = K" using dm ks by simp
  moreover have "\<exists>ks. distinct ks \<and> set ks = K \<and> length ks = length (newFolders r) \<and>
            (\<forall>i < length ks.
               pathMap r (ks ! i) = Some (f_id (newFolders r ! i)) \<and>
               f_name (newFolders r ! i) = lastSegment (ks ! i) \<and>
               parentId (newFolders r ! i) =
                 (case parentKey (ks ! i) of None \<Rightarrow> None | Some q \<Rightarrow> pathMap r q) \<and>
               (\<forall>q. parentKey (ks ! i) = Some q \<longrightarrow> q \<in> K))"
    using d ks len each by (intro exI [of _ ks]) simp
  ultimately show ?thesis by blast
qed

text \<open>
  The example of the specification: the paths \<open>A/B/C\<close> and \<open>A/B/D\<close> give four folders,
  \<open>A\<close> and \<open>A/B\<close> made once and shared as ancestors of both \<open>C\<close> and \<open>D\<close>.
\<close>

lemma resolvePaths_shared_prefix_example:
  "length (newFolders (resolvePaths exampleIds [''A/B/C'', ''A/B/D''])) =
     card (set (prefixPaths ''A/B/C'') \<union> set (prefixPaths ''A/B/D'')) \<and>
   set (prefixPaths ''A/B/C'') \<union> set (prefixPaths ''A/B/D'') = {''A'', ''A/B'', ''A/B/C'', ''A/B/D''} \<and>
   newFolders (resolvePaths exampleIds [''A/B/C'', ''A/B/D'']) =
     [\<lparr>f_id = ''x'', f_name = ''A'', parentId = None\<rparr>,
      \<lparr>f_id = ''xx'', f_name = ''B'', parentId = Some ''x''\<rparr>,
      \<lparr>f_id = ''xxx'', f_name = ''C'', parentId = Some ''xx''\<rparr>,
      \<lparr>f_id = ''xxxx'', f_name = ''D'', parentId = Some ''xx''\<rparr>]"
proof -
  have wf: "\<forall>p \<in> set [''A/B/C'', ''A/B/D'']. p = [] \<or> hd p \<noteq> CHR ''/''"
    by simp
  have ev: "newFolders (resolvePaths exampleIds [''A/B/C'', ''A/B/D'']) =
     [\<lparr>f_id = ''x'', f_name = ''A'', parentId = None\<rparr>,
      \<lparr>f_id = ''xx'', f_name = ''B'', parentId = Some ''x''\<rparr>,
      \<lparr>f_id = ''xxx'', f_name = ''C'', parentId = Some ''xx''\<rparr>,
      \<lparr>f_id = ''xxxx'', f_name = ''D'', parentId = Some ''xx''\<rparr>]"
    by (simp add: resolvePaths_def resolvePath_def resolvePart_def exampleIds_def Let_def)
  have pp: "set (prefixPaths ''A/B/C'') \<union> set (prefixPaths ''A/B/D'') = {''A'', ''A/B'', ''A/B/C'', ''A/B/D''}"
    by (auto simp: prefixPaths_def upt_conv_Cons)
  from resolvePaths_without_leading_slash [OF wf, of exampleIds] ev pp
  show ?thesis by simp
qed

text \<open>
  Claim C3. The resolver is to create exactly one folder per distinct accumulated prefix
  path, each with the id of the immediately shorter prefix as its \<open>parentId\<close>, for every
  list of paths. The code misses this for a path that begins with a slash: after the
  first, empty segment \<^verbatim>\<open>currentPath\<close> is the empty string, which the test
  \<^verbatim>\<open>currentPath ? ... : part\<close> takes for \<open>no path yet\<close>, so the second segment starts
  afresh. At the paths \<open>/A\<close> and \<open>A\<close> there are three distinct prefixes (the empty
  one, \<open>/A\<close> and \<open>A\<close>) and the resolver returns two folders: the declared path
  \<open>/A\<close> gets no entry in \<open>pathMap\<close>, so an assignment to it is skipped, and the
  folder recorded for the one-segment path \<open>A\<close> carries a parent.
\<close>

theorem resolvePaths_leading_slash:
  "newFolders (resolvePaths exampleIds [''/A'', ''A'']) =
     [\<lparr>f_id = ''x'', f_name = [], parentId = None\<rparr>,
      \<lparr>f_id = ''xx'', f_name = ''A'', parentId = Some ''x''\<rparr>] \<and>
   pathMap (resolvePaths exampleIds [''/A'', ''A'']) ''A'' = Some ''xx'' \<and>
   pathMap (resolvePaths exampleIds [''/A'', ''A'']) ''/A'' = None \<and>
   parentKey ''A'' = None \<and>
   prefixPaths ''/A'' = [[], ''/A''] \<and> prefixPaths ''A'' = [''A''] \<and>
   length (newFolders (resolvePaths exampleIds [''/A'', ''A''])) \<noteq>
     card (set (prefixPaths ''/A'') \<union> set (prefixPaths ''A'')) \<and>
   applySuggestion exampleIds
     (Some \<lparr>p_folders = [\<lparr>path = ''/A'', description = []\<rparr>, \<lparr>path = ''A'', description = []\<rparr>],
            assignments = [\<lparr>bookmarkId = ''b1'', folderPath = ''/A''\<rparr>], reasoning = []\<rparr>)
     (Some \<lparr>bookmarks = [\<lparr>b_id = ''b1'', title = ''T'', url = ''u'', addDate = None, icon = None,
                            tags = None, folder = None\<rparr>],
            folders = []\<rparr>)
   = Some \<lparr>bookmarks = [\<lparr>b_id = ''b1'', title = ''T'', url = ''u'', addDate = None, icon = None,
                            tags = None, folder = None\<rparr>],
            folders = [\<lparr>f_id = ''x'', f_name = [], parentId = None\<rparr>,
                       \<lparr>f_id = ''xx'', f_name = ''A'', parentId = Some ''x''\<rparr>]\<rparr>"
  by (simp add: resolvePaths_def resolvePath_def resolvePart_def exampleIds_def Let_def
      prefixPaths_def parentKey_def upt_conv_Cons applySuggestion_def applyAssignment_def)

section \<open>Properties of the serialization\<close>

subsection \<open>One level of the rendering, and the nesting it needs\<close>

text \<open>
  \<open>renderLevel\<close> is one call of \<^verbatim>\<open>renderItems\<close> with the nested calls abstracted to
  \<open>inner\<close>; it only serves to state the lemmas below. A \<open>chain\<close> is a sequence of
  folders from a root folder downwards, each the parent of the next, as the nested
  calls follow it.
\<close>

definition renderLevel ::
  "(Folder \<Rightarrow> string option) \<Rightarrow> BookmarkLibrary \<Rightarrow> string option \<Rightarrow> nat \<Rightarrow> string option" where
  "renderLevel inner library parent indent =
     (case those (map (\<lambda>f. case inner f of
                              None \<Rightarrow> None
                            | Some body \<Rightarrow> Some (folderOpen (replicate indent CHR '' '') f @ body @
                                                  folderClose (replicate indent CHR '' '')))
                    (filter (\<lambda>f. parentId f = parent) (folders library))) of
        None \<Rightarrow> None
      | Some rendered \<Rightarrow>
          Some (concat rendered @
                concat (map (renderBookmark (replicate indent CHR '' ''))
                          (filter (\<lambda>b. folder b = parent) (bookmarks library)))))"

lemma renderItems_unfold:
  "renderItems (Suc fuel) library parent indent =
     renderLevel (\<lambda>f. renderItems fuel library (Some (f_id f)) (indent + 4)) library parent indent"
  by (simp add: renderLevel_def Let_def)

lemma renderLevel_cong:
  assumes "\<And>f. f \<in> set (folders library) \<Longrightarrow> parentId f = parent \<Longrightarrow> inner f = inner' f"
  shows "renderLevel inner library parent indent = renderLevel inner' library parent indent"
proof -
  have "map (\<lambda>f. case inner f of
                              None \<Rightarrow> None
                            | Some body \<Rightarrow> Some (folderOpen (replicate indent CHR '' '') f @ body @
                                                  folderClose (replicate indent CHR '' '')))
                    (filter (\<lambda>f. parentId f = parent) (folders library))
      = map (\<lambda>f. case inner' f of
                              None \<Rightarrow> None
                            | Some body \<Rightarrow> Some (folderOpen (replicate indent CHR '' '') f @ body @
                                                  folderClose (replicate indent CHR '' '')))
                    (filter (\<lambda>f. parentId f = parent) (folders library))"
    by (rule map_cong [OF refl]) (simp add: assms)
  then show ?thesis
    unfolding renderLevel_def by (rule arg_cong)
qed

lemma those_map_Some:
  "(\<And>x. x \<in> set xs \<Longrightarrow> \<exists>y. f x = Some y) \<Longrightarrow> \<exists>ys. those (map f xs) = Some ys"
proof (induction xs)
  case Nil
  then show ?case by simp
next
  case (Cons x xs)
  then obtain y where "f x = Some y" by auto
  moreover from Cons obtain ys where "those (map f xs) = Some ys" by auto
  ultimately show ?case by simp
qed

lemma those_map_SomeD:
  "those (map f xs) = Some ys \<Longrightarrow> x \<in> set xs \<Longrightarrow> \<exists>y. f x = Some y"
  by (induction xs arbitrary: ys) (auto split: option.splits)

lemma renderLevel_Some:
  assumes "\<And>f. f \<in> set (folders library) \<Longrightarrow> parentId f = parent \<Longrightarrow> \<exists>body. inner f = Some body"
  shows "\<exists>out. renderLevel inner library parent indent = Some out"
proof -
  have "\<exists>ys. those (map (\<lambda>f. case inner f of
                              None \<Rightarrow> None
                            | Some body \<Rightarrow> Some (folderOpen (replicate indent CHR '' '') f @ body @
                                                  folderClose (replicate indent CHR '' '')))
                    (filter (\<lambda>f. parentId f = parent) (folders library))) = Some ys"
  proof (rule those_map_Some)
    fix f assume "f \<in> set (filter (\<lambda>f. parentId f = parent) (folders library))"
    then obtain body where "inner f = Some body" using assms by auto
    then show "\<exists>y. (case inner f of
                              None \<Rightarrow> None
                            | Some body \<Rightarrow> Some (folderOpen (replicate indent CHR '' '') f @ body @
                                                  folderClose (replicate indent CHR '' ''))) = Some y"
      by simp
  qed
  then show ?thesis by (auto simp: renderLevel_def)
qed

lemma renderLevel_SomeD:
  assumes "renderLevel inner library parent indent = Some out"
    and "f \<in> set (folders library)" "parentId f = parent"
  shows "\<exists>body. inner f = Some body"
proof -
  from assms(1) obtain ys where "those (map (\<lambda>f. case inner f of
                              None \<Rightarrow> None
                            | Some body \<Rightarrow> Some (folderOpen (replicate indent CHR '' '') f @ body @
                                                  folderClose (replicate indent CHR '' '')))
                    (filter (\<lambda>f. parentId f = parent) (folders library))) = Some ys"
    by (auto simp: renderLevel_def split: option.splits)
  from those_map_SomeD [OF this, of f] assms(2,3) show ?thesis
    by (auto split: option.splits)
qed

lemma renderItems_Suc:
  "renderItems fuel library parent indent = Some out \<Longrightarrow>
   renderItems (Suc fuel) library parent indent = Some out"
proof (induction fuel arbitrary: parent indent out)
  case 0
  then show ?case by simp
next
  case (Suc fuel)
  from Suc.prems have lv: "renderLevel (\<lambda>f. renderItems fuel library (Some (f_id f)) (indent + 4))
                         library parent indent = Some out"
    by (simp only: renderItems_unfold)
  have "renderLevel (\<lambda>f. renderItems (Suc fuel) library (Some (f_id f)) (indent + 4)) library parent indent
      = renderLevel (\<lambda>f. renderItems fuel library (Some (f_id f)) (indent + 4)) library parent indent"
  proof (rule renderLevel_cong)
    fix f assume "f \<in> set (folders library)" "parentId f = parent"
    from renderLevel_SomeD [OF lv this] obtain body
      where "renderItems fuel library (Some (f_id f)) (indent + 4) = Some body" by blast
    with Suc.IH [OF this]
    show "renderItems (Suc fuel) library (Some (f_id f)) (indent + 4)
          = renderItems fuel library (Some (f_id f)) (indent + 4)" by simp
  qed
  with lv show ?case by (simp only: renderItems_unfold)
qed

lemma renderItems_more_fuel:
  "renderItems fuel library parent indent = Some out \<Longrightarrow>
   renderItems (fuel + k) library parent indent = Some out"
  by (induction k) (auto dest: renderItems_Suc simp del: renderItems.simps)

definition chain :: "BookmarkLibrary \<Rightarrow> Folder list \<Rightarrow> bool" where
  "chain library fs \<longleftrightarrow>
     fs \<noteq> [] \<and> set fs \<subseteq> set (folders library) \<and> parentId (hd fs) = None \<and>
     (\<forall>j. Suc j < length fs \<longrightarrow> parentId (fs ! Suc j) = Some (f_id (fs ! j)))"

lemma chain_butlast: "chain library (fs @ [g]) \<Longrightarrow> fs \<noteq> [] \<Longrightarrow> chain library fs"
  unfolding chain_def
  by (auto simp: nth_append hd_append dest!: spec split: if_splits)

lemma chain_snoc:
  assumes "fs = [] \<or> chain library fs" "g \<in> set (folders library)"
    "parentId g = (if fs = [] then None else Some (f_id (last fs)))"
  shows "chain library (fs @ [g])"
proof (cases "fs = []")
  case True
  with assms show ?thesis by (simp add: chain_def)
next
  case False
  with assms have c: "chain library fs" by simp
  show ?thesis
    unfolding chain_def
  proof (intro conjI allI impI)
    show "fs @ [g] \<noteq> []" by simp
    show "set (fs @ [g]) \<subseteq> set (folders library)" using c assms(2) by (auto simp: chain_def)
    show "parentId (hd (fs @ [g])) = None" using c False by (simp add: chain_def)
  next
    fix j assume j: "Suc j < length (fs @ [g])"
    show "parentId ((fs @ [g]) ! Suc j) = Some (f_id ((fs @ [g]) ! j))"
    proof (cases "Suc j < length fs")
      case True
      then show ?thesis using c by (simp add: chain_def nth_append)
    next
      case False
      with j have "Suc j = length fs" by simp
      then have "j = length fs - 1" by simp
      then show ?thesis using assms(3) \<open>fs \<noteq> []\<close>
        by (simp add: nth_append last_conv_nth)
    qed
  qed
qed

lemma chain_distinct:
  assumes inj: "distinct (map f_id (folders library))"
  shows "chain library fs \<Longrightarrow> distinct fs"
proof (induction fs rule: rev_induct)
  case Nil
  then show ?case by simp
next
  case (snoc g fs)
  show ?case
  proof (cases "fs = []")
    case True
    then show ?thesis by simp
  next
    case False
    from chain_butlast [OF snoc.prems False] have c: "chain library fs" .
    with snoc.IH have d: "distinct fs" by simp
    have ji: "inj_on f_id (set (folders library))"
      using inj by (simp add: distinct_map)
    have pg: "parentId g = Some (f_id (last fs))"
      using snoc.prems False unfolding chain_def
      by (auto simp: nth_append last_conv_nth dest!: spec [of _ "length fs - 1"])
    have "g \<notin> set fs"
    proof
      assume "g \<in> set fs"
      then obtain j where j: "j < length fs" "fs ! j = g" by (auto simp: in_set_conv_nth)
      show False
      proof (cases j)
        case 0
        with j c pg show False by (simp add: chain_def hd_conv_nth)
      next
        case (Suc k)
        with j c have "parentId g = Some (f_id (fs ! k))" by (auto simp: chain_def)
        with pg have "f_id (fs ! k) = f_id (last fs)" by simp
        moreover have "fs ! k \<in> set (folders library)" "last fs \<in> set (folders library)"
          using c j Suc False by (auto simp: chain_def)
        ultimately have "fs ! k = last fs" using ji by (auto dest: inj_onD)
        then have "fs ! k = fs ! (length fs - 1)" using False by (simp add: last_conv_nth)
        with d j Suc have "k = length fs - 1"
          by (simp add: nth_eq_iff_index_eq)
        with j Suc show False by simp
      qed
    qed
    with d show ?thesis by simp
  qed
qed

lemma chain_length:
  assumes "distinct (map f_id (folders library))" "chain library fs"
  shows "length fs \<le> length (folders library)"
proof -
  have "distinct fs" using assms by (rule chain_distinct)
  then have "length fs = card (set fs)" by (simp add: distinct_card)
  also have "\<dots> \<le> card (set (folders library))"
    using assms(2) by (intro card_mono) (auto simp: chain_def)
  also have "\<dots> \<le> length (folders library)" by (rule card_length)
  finally show ?thesis .
qed

lemma renderItems_enough_fuel:
  assumes inj: "distinct (map f_id (folders library))"
  shows "(fs = [] \<and> parent = None) \<or> (chain library fs \<and> parent = Some (f_id (last fs))) \<Longrightarrow>
         length (folders library) < fuel + length fs \<Longrightarrow>
         \<exists>out. renderItems fuel library parent indent = Some out"
proof (induction fuel arbitrary: fs parent indent)
  case 0
  then show ?case using chain_length [OF inj, of fs] by auto
next
  case (Suc fuel)
  have "\<exists>out. renderLevel (\<lambda>f. renderItems fuel library (Some (f_id f)) (indent + 4))
                 library parent indent = Some out"
  proof (rule renderLevel_Some)
    fix f assume f: "f \<in> set (folders library)" "parentId f = parent"
    have "chain library (fs @ [f])"
      using Suc.prems(1) f by (intro chain_snoc) (auto simp: chain_def)
    moreover have "length (folders library) < fuel + length (fs @ [f])"
      using Suc.prems(2) by simp
    ultimately show "\<exists>body. renderItems fuel library (Some (f_id f)) (indent + 4) = Some body"
      by (intro Suc.IH [of "fs @ [f]"]) simp_all
  qed
  then show ?case by (simp only: renderItems_unfold)
qed

lemma exportToHTML_total:
  assumes "distinct (map f_id (folders library))"
  shows "\<exists>out. exportToHTML (Suc (length (folders library))) library = Some out"
proof -
  from renderItems_enough_fuel [OF assms, of "[]" None "Suc (length (folders library))" 4]
  obtain body where "renderItems (Suc (length (folders library))) library None 4 = Some body"
    by auto
  then show ?thesis by (simp add: exportToHTML_def del: renderItems.simps)
qed

subsection \<open>Bookmarks with a dangling folder reference\<close>

text \<open>
  A folder id is \<open>reachable\<close> when some folder carrying it is a root folder or the child
  (by \<^verbatim>\<open>parentId\<close>) of a folder with a reachable id. A bookmark is \<open>dangling\<close> when its
  \<^verbatim>\<open>folder\<close> is defined and not reachable.
\<close>

inductive reachable :: "BookmarkLibrary \<Rightarrow> string \<Rightarrow> bool" for library where
  root: "f \<in> set (folders library) \<Longrightarrow> parentId f = None \<Longrightarrow> reachable library (f_id f)"
| child: "f \<in> set (folders library) \<Longrightarrow> parentId f = Some p \<Longrightarrow> reachable library p
          \<Longrightarrow> reachable library (f_id f)"

definition dangling :: "BookmarkLibrary \<Rightarrow> Bookmark \<Rightarrow> bool" where
  "dangling library b \<longleftrightarrow> (\<exists>x. folder b = Some x \<and> \<not> reachable library x)"

definition dropDangling :: "BookmarkLibrary \<Rightarrow> BookmarkLibrary" where
  "dropDangling library =
     library\<lparr>bookmarks := filter (\<lambda>b. \<not> dangling library b) (bookmarks library)\<rparr>"

lemma renderItems_dropDangling:
  assumes "parent = None \<or> (\<exists>x. parent = Some x \<and> reachable library x)"
  shows "renderItems fuel (dropDangling library) parent indent = renderItems fuel library parent indent"
  using assms
proof (induction fuel arbitrary: parent indent)
  case 0
  then show ?case by simp
next
  case (Suc fuel)
  have sub: "renderItems fuel (dropDangling library) (Some (f_id f)) (indent + 4)
             = renderItems fuel library (Some (f_id f)) (indent + 4)"
    if "f \<in> set (filter (\<lambda>f. parentId f = parent) (folders library))" for f
  proof -
    from that have f: "f \<in> set (folders library)" "parentId f = parent" by simp_all
    have "reachable library (f_id f)"
      using Suc.prems f by (auto intro: reachable.intros)
    then show ?thesis by (intro Suc.IH) simp
  qed
  have bm: "filter (\<lambda>b. \<not> dangling library b \<and> folder b = parent) (bookmarks library)
            = filter (\<lambda>b. folder b = parent) (bookmarks library)"
    using Suc.prems by (auto simp: dangling_def intro!: filter_cong)
  have fl: "map (\<lambda>f. case renderItems fuel (dropDangling library) (Some (f_id f)) (indent + 4) of
                              None \<Rightarrow> None
                            | Some inner \<Rightarrow> Some (folderOpen (replicate indent CHR '' '') f @ inner @ folderClose (replicate indent CHR '' '')))
                    (filter (\<lambda>f. parentId f = parent) (folders library))
          = map (\<lambda>f. case renderItems fuel library (Some (f_id f)) (indent + 4) of
                              None \<Rightarrow> None
                            | Some inner \<Rightarrow> Some (folderOpen (replicate indent CHR '' '') f @ inner @ folderClose (replicate indent CHR '' '')))
                    (filter (\<lambda>f. parentId f = parent) (folders library))"
    by (rule map_cong [OF refl]) (simp add: sub)
  have [simp]: "folders (dropDangling library) = folders library"
    "bookmarks (dropDangling library) = filter (\<lambda>b. \<not> dangling library b) (bookmarks library)"
    by (simp_all add: dropDangling_def)
  show ?case
    by (simp add: Let_def fl bm cong: option.case_cong)
qed

text \<open>
  Claim C10. A bookmark whose \<^verbatim>\<open>folder\<close> is neither undefined nor the id of a folder
  reachable from the root does not appear in the output of \<^verbatim>\<open>exportToHTML\<close>: for every
  number of nested calls allowed, the export of the library is the export of the
  library without its dangling bookmarks. They are dropped without a trace, they are
  not written at the root, and they do not make the export fail.
\<close>

theorem exportToHTML_drops_dangling:
  "exportToHTML fuel (dropDangling library) = exportToHTML fuel library"
  by (simp add: exportToHTML_def renderItems_dropDangling)

text \<open>
  The library of a single bookmark in the folder \<open>zz\<close>, which does not exist: the
  document is the header followed by the closing line.
\<close>

theorem exportToHTML_drops_dangling_witness:
  "exportToHTML 1
     \<lparr>bookmarks = [\<lparr>b_id = ''b1'', title = ''T'', url = ''u'', addDate = None, icon = None,
                     tags = None, folder = Some ''zz''\<rparr>],
      folders = []\<rparr>
   = Some (htmlHeader @ htmlFooter)"
proof -
  let ?l = "\<lparr>bookmarks = [\<lparr>b_id = ''b1'', title = ''T'', url = ''u'', addDate = None, icon = None,
                     tags = None, folder = Some ''zz''\<rparr>],
      folders = []\<rparr>"
  have "\<not> reachable ?l ''zz''"
    by (auto elim: reachable.cases)
  then have "dropDangling ?l = \<lparr>bookmarks = [], folders = []\<rparr>"
    by (simp add: dropDangling_def dangling_def)
  with exportToHTML_drops_dangling [of 1 ?l] show ?thesis
    by (simp add: exportToHTML_def)
qed

subsection \<open>Escaping\<close>

text \<open>
  The vocabulary of the claim about escaping. \<open>escapeChar\<close> is the entity that stands
  for one character. \<open>markup s\<close> keeps the characters \<open><\<close>, \<open>>\<close>, the double quote
  and the apostrophe of \<open>s\<close>, in order. \<open>wellEscaped s\<close> says that every ampersand of
  \<open>s\<close> begins one of the five entities. \<open>blankTexts\<close> replaces every character of
  every folder name, title, url, \<^verbatim>\<open>addDate\<close> and \<^verbatim>\<open>icon\<close> of a library by the letter
  \<open>x\<close>, and leaves the ids and the hierarchy as they are.
\<close>

fun escapeChar :: "char \<Rightarrow> string" where
  "escapeChar c =
     (if c = CHR ''&'' then ''&amp;''
      else if c = CHR ''<'' then ''&lt;''
      else if c = CHR ''>'' then ''&gt;''
      else if c = CHR 0x22 then ''&quot;''
      else if c = CHR 0x27 then ''&#039;''
      else [c])"

definition markup :: "string \<Rightarrow> string" where
  "markup s = filter (\<lambda>c. c = CHR ''<'' \<or> c = CHR ''>'' \<or> c = CHR 0x22 \<or> c = CHR 0x27) s"



definition blankText :: "string \<Rightarrow> string" where
  "blankText s = map (\<lambda>c. CHR ''x'') s"


lemma replaceAll_append: "replaceAll c r (a @ b) = replaceAll c r a @ replaceAll c r b"
  by (simp add: replaceAll_def)

lemma replaceAll_Cons: "replaceAll c r (x # xs) = (if x = c then r else [x]) @ replaceAll c r xs"
  by (simp add: replaceAll_def)

lemma replaceAll_Nil: "replaceAll c r [] = []"
  by (simp add: replaceAll_def)

lemma escapeHtml_Nil: "escapeHtml [] = []"
  by (simp add: escapeHtml_def replaceAll_Nil)

lemma escapeHtml_Cons: "escapeHtml (x # xs) = escapeChar x @ escapeHtml xs"
  by (simp add: escapeHtml_def replaceAll_Cons replaceAll_append replaceAll_Nil)



lemma markup_append [simp]: "markup (a @ b) = markup a @ markup b"
  by (simp add: markup_def)

lemma markup_Nil [simp]: "markup [] = []"
  by (simp add: markup_def)

lemma markup_Cons [simp]:
  "markup (c # cs) =
     (if c = CHR ''<'' \<or> c = CHR ''>'' \<or> c = CHR 0x22 \<or> c = CHR 0x27 then c # markup cs
      else markup cs)"
  by (simp add: markup_def)


lemma markup_escapeChar: "markup (escapeChar c) = []"
  by simp

lemma markup_escapeHtml [simp]: "markup (escapeHtml s) = []"
  by (induction s) (simp_all add: escapeHtml_Nil escapeHtml_Cons markup_escapeChar del: escapeChar.simps)

lemma blankText_Nil [simp]: "blankText s = [] \<longleftrightarrow> s = []"
  by (simp add: blankText_def)






















section \<open>Properties of the auto-sort listener\<close>

text \<open>
  \<open>preorder\<close> lists the nodes of a host tree, a node before its children and the
  children from first to last. A node is indexed as a folder when it has no url and is
  not the synthetic root \<open>0\<close>. \<open>folderIdsNamed name nodes\<close> are the ids of the folders
  of that title among \<open>nodes\<close>, in order, and \<open>extendIndex m nodes\<close> is the index \<open>m\<close>
  after these nodes have been visited. \<open>ownKeys m\<close> says that no own property of the
  record \<open>m\<close> carries the name of an inherited one.
\<close>

fun preorder :: "BookmarkTreeNode \<Rightarrow> BookmarkTreeNode list" where
  "preorder (Node i t u cs) =
     Node i t u cs # (case cs of None \<Rightarrow> [] | Some kids \<Rightarrow> concat (map preorder kids))"

definition isFolderNode :: "BookmarkTreeNode \<Rightarrow> bool" where
  "isFolderNode n \<longleftrightarrow> \<not> truthy (n_url n) \<and> n_id n \<noteq> ''0''"

definition folderIdsNamed :: "string \<Rightarrow> BookmarkTreeNode list \<Rightarrow> string list" where
  "folderIdsNamed name nodes = map n_id (filter (\<lambda>n. isFolderNode n \<and> n_title n = name) nodes)"

definition extendIndex ::
  "(string \<rightharpoonup> string list) \<Rightarrow> BookmarkTreeNode list \<Rightarrow> (string \<rightharpoonup> string list)" where
  "extendIndex m nodes = (\<lambda>name.
     if folderIdsNamed name nodes = [] then m name
     else Some ((case m name of None \<Rightarrow> [] | Some ids \<Rightarrow> ids) @ folderIdsNamed name nodes))"

definition ownKeys :: "(string \<rightharpoonup> 'a) \<Rightarrow> bool" where
  "ownKeys m \<longleftrightarrow> (\<forall>k. m k \<noteq> None \<longrightarrow> \<not> inherited k)"

text \<open>
  For the examples: a host store that records every placement \<open>(id, parent)\<close> it is asked
  for, rejects a parent that is not a string, and names a new folder \<open>c\<close> followed by
  its title; a session that has created nothing yet; and a host tree with two folders
  named \<open>Dev\<close>, of ids \<open>5\<close> and \<open>9\<close>, the first met earlier in the pre-order
  traversal.
\<close>

definition exampleChrome :: "(string \<times> string) list Chrome" where
  "exampleChrome =
     \<lparr>create = (\<lambda>s title parent. Some (''c'' @ title, s @ [(''c'' @ title, parent)])),
      move = (\<lambda>s i parent. case parent of Id p \<Rightarrow> Some (s @ [(i, p)]) | _ \<Rightarrow> None)\<rparr>"

definition exampleSession :: "(string \<times> string) list Session" where
  "exampleSession = \<lparr>createdFolders = Map.empty, store = [], console = []\<rparr>"

definition exampleTree :: "BookmarkTreeNode list" where
  "exampleTree =
     [Node ''0'' [] None (Some
        [Node ''1'' ''Bookmarks bar'' None (Some
           [Node ''5'' ''Dev'' None (Some []),
            Node ''6'' ''A page'' (Some ''http://x.com'') None,
            Node ''7'' ''Other'' None (Some
              [Node ''9'' ''Dev'' None (Some [])])])])]"

lemma folderIdsNamed_append:
  "folderIdsNamed name (a @ b) = folderIdsNamed name a @ folderIdsNamed name b"
  by (simp add: folderIdsNamed_def)

lemma extendIndex_Nil [simp]: "extendIndex m [] = m"
  by (simp add: extendIndex_def folderIdsNamed_def)

lemma extendIndex_append: "extendIndex (extendIndex m a) b = extendIndex m (a @ b)"
  by (rule ext) (auto simp: extendIndex_def folderIdsNamed_append split: option.splits)

lemma traverse_failed:
  "foldl (\<lambda>acc child. case acc of Inl e \<Rightarrow> Inl e | Inr a \<Rightarrow> traverse child p a) (Inl e) kids = Inl e"
  by (induction kids) simp_all

lemma traverse_kids:
  assumes "\<And>k p fs m fs' m'. k \<in> set kids \<Longrightarrow> traverse k p (fs, m) = Inr (fs', m') \<Longrightarrow>
             m' = extendIndex m (preorder k) \<and> (ownKeys m \<longrightarrow> ownKeys m')"
    and "foldl (\<lambda>acc child. case acc of Inl e \<Rightarrow> Inl e | Inr a \<Rightarrow> traverse child p a)
           (Inr (fs, m)) kids = Inr (fs', m')"
  shows "m' = extendIndex m (concat (map preorder kids)) \<and> (ownKeys m \<longrightarrow> ownKeys m')"
  using assms
proof (induction kids arbitrary: fs m)
  case Nil
  then show ?case by simp
next
  case (Cons k kids)
  show ?case
  proof (cases "traverse k p (fs, m)")
    case (Inl e)
    with Cons.prems(2) show ?thesis by (simp add: traverse_failed)
  next
    case (Inr st)
    obtain fs1 m1 where st: "st = (fs1, m1)" by (cases st)
    have "m1 = extendIndex m (preorder k) \<and> (ownKeys m \<longrightarrow> ownKeys m1)"
      using Inr st by (intro Cons.prems(1) [of k p fs m fs1 m1]) simp_all
    then have m1: "m1 = extendIndex m (preorder k)" "ownKeys m \<longrightarrow> ownKeys m1" by blast+
    have run: "foldl (\<lambda>acc child. case acc of Inl e \<Rightarrow> Inl e | Inr a \<Rightarrow> traverse child p a)
           (Inr (fs1, m1)) kids = Inr (fs', m')"
      using Cons.prems(2) Inr st by simp
    have "m' = extendIndex m1 (concat (map preorder kids)) \<and> (ownKeys m1 \<longrightarrow> ownKeys m')"
    proof (rule Cons.IH [OF _ run])
      fix k' p' fs2 m2 fs3 m3
      assume "k' \<in> set kids" "traverse k' p' (fs2, m2) = Inr (fs3, m3)"
      then show "m3 = extendIndex m2 (preorder k') \<and> (ownKeys m2 \<longrightarrow> ownKeys m3)"
        by (intro Cons.prems(1)) simp_all
    qed
    then have "m' = extendIndex m1 (concat (map preorder kids))" "ownKeys m1 \<longrightarrow> ownKeys m'"
      by blast+
    moreover have "extendIndex m1 (concat (map preorder kids)) =
        extendIndex m (concat (map preorder (k # kids)))"
      using m1(1) by (simp add: extendIndex_append)
    ultimately show ?thesis using m1(2) by blast
  qed
qed

lemma traverse_index:
  "traverse n p (fs, m) = Inr (fs', m') \<Longrightarrow>
   m' = extendIndex m (preorder n) \<and> (ownKeys m \<longrightarrow> ownKeys m')"
proof (induction n arbitrary: p fs m fs' m')
  case (Node i t u cs)
  let ?visit = "if \<not> truthy u \<and> i \<noteq> ''0''
            then (case getProperty m t of
                    None \<Rightarrow> Inr (fs @ [\<lparr>f_id = i, f_name = t, parentId = p\<rparr>], m(t \<mapsto> [i]))
                  | Some (Own ids) \<Rightarrow>
                      Inr (fs @ [\<lparr>f_id = i, f_name = t, parentId = p\<rparr>], m(t \<mapsto> ids @ [i]))
                  | Some (Inherited k) \<Rightarrow> Inl TypeError)
            else Inr (fs, m)"
  from Node.prems obtain fs0 m0 where v: "?visit = Inr (fs0, m0)"
    by (cases ?visit) auto
  have m0: "m0 = extendIndex m [Node i t u cs]"
    using v
    by (intro ext)
       (auto simp: extendIndex_def folderIdsNamed_def isFolderNode_def getProperty_def
          split: if_splits option.splits Property.splits)
  have k0: "ownKeys m \<longrightarrow> ownKeys m0"
    using v
    by (auto simp: ownKeys_def getProperty_def split: if_splits option.splits Property.splits)
  show ?case
  proof (cases cs)
    case None
    with Node.prems v m0 k0 show ?thesis by simp
  next
    case (Some kids)
    have IH: "\<And>k p fs m fs' m'. k \<in> set kids \<Longrightarrow> traverse k p (fs, m) = Inr (fs', m') \<Longrightarrow>
             m' = extendIndex m (preorder k) \<and> (ownKeys m \<longrightarrow> ownKeys m')"
      using Node.IH Some by simp
    have run: "foldl (\<lambda>acc child. case acc of Inl e \<Rightarrow> Inl e
                 | Inr a \<Rightarrow> traverse child (if i = ''0'' then None else Some i) a)
           (Inr (fs0, m0)) kids = Inr (fs', m')"
      using Node.prems v Some by simp
    have "m' = extendIndex m0 (concat (map preorder kids)) \<and> (ownKeys m0 \<longrightarrow> ownKeys m')"
      by (rule traverse_kids [OF _ run]) (rule IH, assumption+)
    then have "m' = extendIndex m0 (concat (map preorder kids))" "ownKeys m0 \<longrightarrow> ownKeys m'"
      by blast+
    moreover have "extendIndex m0 (concat (map preorder kids)) =
        extendIndex m (preorder (Node i t u cs))"
      using m0 Some by (simp add: extendIndex_append)
    ultimately show ?thesis using k0 by blast
  qed
qed

lemma traverseTree_index:
  assumes "traverseTree tree = Inr (fs, index)"
  shows "index name =
     (if folderIdsNamed name (concat (map preorder tree)) = [] then None
      else Some (folderIdsNamed name (concat (map preorder tree))))"
    and "ownKeys index"
proof -
  have "index = extendIndex Map.empty (concat (map preorder tree)) \<and>
      (ownKeys (Map.empty :: string \<rightharpoonup> string list) \<longrightarrow> ownKeys index)"
    using assms unfolding traverseTree_def
    by (intro traverse_kids [where p = None and fs = "[]" and fs' = fs]) (rule traverse_index)
  then show "index name =
     (if folderIdsNamed name (concat (map preorder tree)) = [] then None
      else Some (folderIdsNamed name (concat (map preorder tree))))"
    and "ownKeys index"
    by (simp_all add: extendIndex_def ownKeys_def)
qed

text \<open>
  The traversal of the example tree, and of a tree with a folder titled
  \<open>constructor\<close>, where it throws before any action is handled.
\<close>

lemma traverseTree_example:
  "map_sum id (\<lambda>st. (fst st, snd st ''Dev'', snd st ''Other'')) (traverseTree exampleTree) =
     Inr ([\<lparr>f_id = ''1'', f_name = ''Bookmarks bar'', parentId = None\<rparr>,
           \<lparr>f_id = ''5'', f_name = ''Dev'', parentId = Some ''1''\<rparr>,
           \<lparr>f_id = ''7'', f_name = ''Other'', parentId = Some ''1''\<rparr>,
           \<lparr>f_id = ''9'', f_name = ''Dev'', parentId = Some ''7''\<rparr>],
          Some [''5'', ''9''], Some [''7''])"
  by (simp add: traverseTree_def exampleTree_def getProperty_def inherited_def objectPrototype_def)

lemma traverseTree_inherited_title:
  "traverseTree
     [Node ''0'' [] None (Some
        [Node ''1'' ''Bookmarks bar'' None (Some
           [Node ''5'' ''constructor'' None (Some [])])])] = Inl TypeError"
  by (simp add: traverseTree_def getProperty_def inherited_def objectPrototype_def)

lemma getProperty_plain:
  "\<not> inherited key \<Longrightarrow> getProperty obj key = map_option Own (obj key)"
  by (simp add: getProperty_def split: option.splits)





text \<open>
  When the caller does not await the callback, as the loop of the one \<^verbatim>\<open>processCommand\<close>
  among the sources, the move of the same batch is resolved before the new folder is
  recorded: it is issued with the literal \<open>Dev\<close>.
\<close>

lemma dispatchUnawaited_batch:
  "store (dispatchUnawaited exampleChrome ''b1'' Map.empty
            [CreateFolder ''Dev'' None, MoveBookmarks [''b1''] ''Dev''] exampleSession)
     = [(''cDev'', ''1''), (''b1'', ''Dev'')] \<and>
   console (dispatchUnawaited exampleChrome ''b1'' Map.empty
            [CreateFolder ''Dev'' None, MoveBookmarks [''b1''] ''Dev''] exampleSession)
     = [LogCreatedFolder ''Dev'' ''cDev'', LogMoved (Id ''Dev'')]"
  by (simp add: dispatchUnawaited_def beginAll_def beginAction_def finishAction_def
      resolveTarget_def getProperty_def setProperty_def inherited_def objectPrototype_def
      exampleChrome_def exampleSession_def)

text \<open>
  Claim C6, amended. When the target of a \<^verbatim>\<open>MoveBookmarks\<close> action is not resolved by
  the session's \<^verbatim>\<open>createdFolders\<close> and the name index built from the host tree lists more
  than one id for it, these ids are the ids of the folders of that name in pre-order,
  the target resolves to the first of them, a warning naming the target and the ids is
  written, the callback returns normally, and the bookmark (when the action names it)
  is moved into that first folder.
\<close>

theorem resolveTarget_ambiguous:
  assumes tree: "traverseTree tree = Inr (fs, index)"
    and session: "\<not> truthy (createdFolders st t)"
    and index: "index t = Some ids"
    and many: "length ids > 1"
  shows "ids = folderIdsNamed t (concat (map preorder tree)) \<and>
         resolveTarget (createdFolders st) index t
           = Inr (Id (hd ids), [WarnAmbiguous t ids]) \<and>
         (\<exists>st'. handleAction chrome b index (MoveBookmarks bids t) st = Inr st' \<and>
            WarnAmbiguous t ids \<in> set (console st') \<and>
            (b \<in> set bids \<longrightarrow> hd ids \<noteq> [] \<longrightarrow>
               store st' = (case move chrome (store st) b (Id (hd ids)) of
                              Some s' \<Rightarrow> s' | None \<Rightarrow> store st)))"
proof -
  have ids: "ids = folderIdsNamed t (concat (map preorder tree))"
    using index traverseTree_index(1) [OF tree, of t] by (simp split: if_splits)
  have "ownKeys index" using tree by (rule traverseTree_index(2))
  with index have plain: "\<not> inherited t" by (auto simp: ownKeys_def)
  obtain first rest where fr: "ids = first # rest" using many by (cases ids) auto
  have res: "resolveTarget (createdFolders st) index t
           = Inr (Id (hd ids), [WarnAmbiguous t ids])"
    using session index many fr plain
    by (cases "createdFolders st t") (auto simp: resolveTarget_def getProperty_plain)
  have "\<exists>st'. handleAction chrome b index (MoveBookmarks bids t) st = Inr st' \<and>
            WarnAmbiguous t ids \<in> set (console st') \<and>
            (b \<in> set bids \<longrightarrow> hd ids \<noteq> [] \<longrightarrow>
               store st' = (case move chrome (store st) b (Id (hd ids)) of
                              Some s' \<Rightarrow> s' | None \<Rightarrow> store st))"
    using res
    by (auto simp: handleAction_def beginAction_def finishAction_def split: option.splits)
  with ids res show ?thesis by blast
qed

text \<open>
  On the example tree the name \<open>Dev\<close> is indexed as \<open>[5, 9]\<close>: the action moves the
  bookmark into \<open>5\<close> and writes the warning.
\<close>

theorem resolveTarget_ambiguous_witness:
  "map_sum id fst (traverseTree exampleTree) =
     Inr [\<lparr>f_id = ''1'', f_name = ''Bookmarks bar'', parentId = None\<rparr>,
          \<lparr>f_id = ''5'', f_name = ''Dev'', parentId = Some ''1''\<rparr>,
          \<lparr>f_id = ''7'', f_name = ''Other'', parentId = Some ''1''\<rparr>,
          \<lparr>f_id = ''9'', f_name = ''Dev'', parentId = Some ''7''\<rparr>] \<and>
   \<not> truthy (createdFolders exampleSession ''Dev'') \<and>
   snd (projr (traverseTree exampleTree)) ''Dev'' = Some [''5'', ''9''] \<and>
   length [''5'', ''9''] > (1 :: nat) \<and>
   folderIdsNamed ''Dev'' (concat (map preorder exampleTree)) = [''5'', ''9''] \<and>
   resolveTarget (createdFolders exampleSession) (snd (projr (traverseTree exampleTree))) ''Dev''
     = Inr (Id ''5'', [WarnAmbiguous ''Dev'' [''5'', ''9'']]) \<and>
   map_sum id (\<lambda>st'. (store st', console st'))
     (handleAction exampleChrome ''b1'' (snd (projr (traverseTree exampleTree)))
        (MoveBookmarks [''b1''] ''Dev'') exampleSession)
   = Inr ([(''b1'', ''5'')], [WarnAmbiguous ''Dev'' [''5'', ''9''], LogMoved (Id ''5'')])"
proof -
  obtain fs index where tree: "traverseTree exampleTree = Inr (fs, index)"
    and index: "index ''Dev'' = Some [''5'', ''9'']"
    and fs: "fs = [\<lparr>f_id = ''1'', f_name = ''Bookmarks bar'', parentId = None\<rparr>,
          \<lparr>f_id = ''5'', f_name = ''Dev'', parentId = Some ''1''\<rparr>,
          \<lparr>f_id = ''7'', f_name = ''Other'', parentId = Some ''1''\<rparr>,
          \<lparr>f_id = ''9'', f_name = ''Dev'', parentId = Some ''7''\<rparr>]"
    using traverseTree_example by (cases "traverseTree exampleTree") auto
  have session: "\<not> truthy (createdFolders exampleSession ''Dev'')"
    by (simp add: exampleSession_def)
  have many: "length [''5'', ''9''] > (1 :: nat)"
    by simp
  from resolveTarget_ambiguous
    [OF tree session index many, where b = "''b1''" and bids = "[''b1'']" and chrome = exampleChrome]
  have ids: "[''5'', ''9''] = folderIdsNamed ''Dev'' (concat (map preorder exampleTree))"
    and res: "resolveTarget (createdFolders exampleSession) index ''Dev''
           = Inr (Id (hd [''5'', ''9'']), [WarnAmbiguous ''Dev'' [''5'', ''9'']])"
    by blast+
  have run: "map_sum id (\<lambda>st'. (store st', console st'))
        (handleAction exampleChrome ''b1'' index (MoveBookmarks [''b1''] ''Dev'') exampleSession)
      = Inr ([(''b1'', ''5'')], [WarnAmbiguous ''Dev'' [''5'', ''9''], LogMoved (Id ''5'')])"
    using res
    by (simp add: handleAction_def beginAction_def finishAction_def exampleChrome_def
        exampleSession_def)
  show ?thesis
    using session index ids [symmetric] res run fs by (simp add: tree)
qed

text \<open>
  The claim as written does not say that the session index comes first. When the batch
  has itself created a folder named \<open>Dev\<close> (here with the id \<open>99\<close>), the name resolves
  to that folder, the two indexed folders are not looked at and no warning is written.
\<close>

theorem resolveTarget_ambiguous_counterexample:
  "snd (projr (traverseTree exampleTree)) ''Dev'' = Some [''5'', ''9''] \<and>
   resolveTarget [''Dev'' \<mapsto> ''99''] (snd (projr (traverseTree exampleTree))) ''Dev''
     = Inr (Id ''99'', [])"
  by (simp add: traverseTree_def exampleTree_def resolveTarget_def getProperty_def
      inherited_def objectPrototype_def)

section \<open>Properties of the parser\<close>

subsection \<open>The flat fallback\<close>

text \<open>
  \<open>flatBookmark rnd (i, a)\<close> is the bookmark that the fallback makes of the link \<open>a\<close>
  with the \<open>i\<close>-th identifier: the text of the link (\<open>Untitled\<close> when empty) as its
  title, its \<^verbatim>\<open>href\<close> (the empty string when absent) as its url, and no folder.
\<close>

definition flatBookmark :: "(nat \<Rightarrow> string) \<Rightarrow> nat \<times> DomNode \<Rightarrow> Bookmark" where
  "flatBookmark rnd ia =
     \<lparr>b_id = rnd (fst ia),
      title = (if textContent (snd ia) = [] then ''Untitled'' else textContent (snd ia)),
      url = (case getAttribute ''href'' (snd ia) of None \<Rightarrow> [] | Some u \<Rightarrow> u),
      addDate = None, icon = None, tags = None, folder = None\<rparr>"

lemma pushFlatLink_fold:
  "foldl (pushFlatLink rnd) st links =
     st\<lparr>out_bookmarks := out_bookmarks st @ map (flatBookmark rnd) (enumerate (out_drawn st) links),
        out_drawn := out_drawn st + length links\<rparr>"
proof (induction links arbitrary: st)
  case Nil
  then show ?case by simp
next
  case (Cons a links)
  show ?case
    by (simp add: Cons.IH) (auto simp: pushFlatLink_def flatBookmark_def orElse_def split: option.splits)
qed

lemma querySelector_None:
  "querySelector t doc = None \<longleftrightarrow> (\<forall>e \<in> set (descendants doc). tagName e \<noteq> t)"
proof -
  have "querySelector t doc = None \<longleftrightarrow> filter (\<lambda>e. tagName e = t) (descendants doc) = []"
    by (simp add: querySelector_def querySelectorAll_def split: list.splits)
  then show ?thesis by (simp add: filter_empty_conv)
qed

text \<open>
  Claim C8. When the document has no \<^verbatim>\<open>dl\<close> element, \<^verbatim>\<open>parseBookmarksHTML\<close> returns a
  library with no folder whose bookmarks are, in document order, one bookmark for every
  \<^verbatim>\<open>a\<close> element anywhere in the document, each at the root (\<^verbatim>\<open>folder\<close> undefined).
\<close>

theorem parseBookmarksHTML_fallback:
  assumes "\<forall>e \<in> set (descendants (parseFromString html)). tagName e \<noteq> ''dl''"
  shows "folders (parseBookmarksHTML rnd parseFromString html) = [] \<and>
         bookmarks (parseBookmarksHTML rnd parseFromString html) =
           map (flatBookmark rnd) (enumerate 0 (querySelectorAll ''a'' (parseFromString html))) \<and>
         (\<forall>b \<in> set (bookmarks (parseBookmarksHTML rnd parseFromString html)). folder b = None)"
proof -
  have "querySelector ''dl'' (parseFromString html) = None"
    using assms by (simp add: querySelector_None)
  then have "parseBookmarksHTML rnd parseFromString html =
     \<lparr>bookmarks = map (flatBookmark rnd) (enumerate 0 (querySelectorAll ''a'' (parseFromString html))),
      folders = []\<rparr>"
    by (simp add: parseBookmarksHTML_def pushFlatLink_fold Let_def)
  then show ?thesis by (auto simp: flatBookmark_def)
qed

text \<open>
  The example of the specification. The text \<^verbatim>\<open><a href='http://x.com'>X</a>\<close> is parsed
  by a browser into a document whose body holds the one link; there is no \<^verbatim>\<open>dl\<close>, and
  the result is one bookmark at the root and no folder.
\<close>

definition exampleDocument :: DomNode where
  "exampleDocument =
     Element ''#document'' []
       [Element ''html'' []
          [Element ''head'' [] [],
           Element ''body'' []
             [Element ''a'' [(''href'', ''http://x.com'')] [TextNode ''X'']]]]"

theorem parseBookmarksHTML_fallback_witness:
  "parseBookmarksHTML exampleIds (\<lambda>html. exampleDocument) ''<a href='http://x.com'>X</a>'' =
     \<lparr>bookmarks = [\<lparr>b_id = ''x'', title = ''X'', url = ''http://x.com'', addDate = None,
                     icon = None, tags = None, folder = None\<rparr>],
      folders = []\<rparr>"
proof -
  have nodl: "\<forall>e \<in> set (descendants ((\<lambda>html. exampleDocument) ''<a href='http://x.com'>X</a>'')).
                tagName e \<noteq> ''dl''"
    by (simp add: exampleDocument_def)
  have "querySelectorAll ''a'' exampleDocument
        = [Element ''a'' [(''href'', ''http://x.com'')] [TextNode ''X'']]"
    by (simp add: exampleDocument_def querySelectorAll_def)
  with parseBookmarksHTML_fallback [OF nodl, of exampleIds]
  have "bookmarks (parseBookmarksHTML exampleIds (\<lambda>html. exampleDocument) ''<a href='http://x.com'>X</a>'')
        = [\<lparr>b_id = ''x'', title = ''X'', url = ''http://x.com'', addDate = None,
                     icon = None, tags = None, folder = None\<rparr>]"
    and "folders (parseBookmarksHTML exampleIds (\<lambda>html. exampleDocument) ''<a href='http://x.com'>X</a>'') = []"
    by (simp_all add: flatBookmark_def getAttribute_def exampleIds_def)
  then show ?thesis by (cases "parseBookmarksHTML exampleIds (\<lambda>html. exampleDocument) ''<a href='http://x.com'>X</a>''") simp
qed

text \<open>
  The document of the example is what the HTML parser of the model builds from the text
  of the specification.
\<close>

lemma parseHtml_fallback_example:
  "parseHtml ''<a href='http://x.com'>X</a>'' = Some exampleDocument"
  by (simp add: parseHtml_def tokenize.simps scanTag_def scanStartTag_def scanEndTag_def
      scanAttributes.simps tagNameChar_def attrNameChar_def isSpace_def isAlpha_def lower_def
      rawTextTags_def Let_def attrValue.simps addAttr_def step_def beforeHead_def inHead_def
      afterHead_def inBody_def inLeaf_def leafOpen_def headings_def push_def closeP_def
      endOfFile_def exampleDocument_def)

section \<open>Properties of the round trip\<close>

subsection \<open>The hierarchy of a library and its text\<close>

text \<open>
  The vocabulary of the claim about the round trip. The hierarchy of a library is a list
  of items without identifiers: a folder with its name and its items, or a link with its
  title, url, date and icon. \<open>forest fuel library parent\<close> is the hierarchy below
  \<open>parent\<close>: the folders whose \<open>parentId\<close> is \<open>parent\<close>, in the order of the library and
  each with its own hierarchy, followed by the bookmarks whose \<open>folder\<close> is \<open>parent\<close>.
  It follows the \<open>parentId\<close> links as \<open>renderItems\<close> does, takes the same number of
  nested calls, and is \<open>None\<close> when these do not suffice. \<open>renderForest\<close> is the text of
  a hierarchy at an indentation: the lines of \<open>renderItems\<close>, read off the items.
\<close>

datatype Item =
  FolderItem string "Item list"
| LinkItem string string "string option" "string option"

definition linkOf :: "Bookmark \<Rightarrow> Item" where
  "linkOf b = LinkItem (title b) (url b) (addDate b) (icon b)"

fun forest :: "nat \<Rightarrow> BookmarkLibrary \<Rightarrow> string option \<Rightarrow> Item list option" where
  "forest 0 library parent = None"
| "forest (Suc fuel) library parent =
     (case those (map (\<lambda>f. map_option (FolderItem (f_name f)) (forest fuel library (Some (f_id f))))
                    (filter (\<lambda>f. parentId f = parent) (folders library))) of
        None \<Rightarrow> None
      | Some subfolders \<Rightarrow>
          Some (subfolders @ map linkOf (filter (\<lambda>b. folder b = parent) (bookmarks library))))"

definition renderAttribute :: "string \<Rightarrow> string option \<Rightarrow> string" where
  \<open>renderAttribute name v =
     (case v of
        None \<Rightarrow> []
      | Some d \<Rightarrow> if d \<noteq> [] then '' '' @ name @ ''="'' @ escapeHtml d @ ''"'' else [])\<close>

fun renderForest :: "nat \<Rightarrow> Item list \<Rightarrow> string" where
  "renderForest i [] = []"
| "renderForest i (LinkItem t u d ic # items) =
     replicate i CHR '' '' @ ''<DT><A HREF='' @ [CHR 0x22] @ escapeHtml u @ [CHR 0x22] @
     renderAttribute ''ADD_DATE'' d @ renderAttribute ''ICON'' ic @
     ''>'' @ escapeHtml t @ ''</A>\<newline>'' @ renderForest i items"
| "renderForest i (FolderItem name sub # items) =
     replicate i CHR '' '' @ ''<DT><H3>'' @ escapeHtml name @ ''</H3>\<newline>'' @
     replicate i CHR '' '' @ ''<DL><p>\<newline>'' @
     renderForest (i + 4) sub @
     replicate i CHR '' '' @ ''</DL><p>\<newline>'' @ renderForest i items"

lemma renderForest_append:
  "renderForest i (xs @ ys) = renderForest i xs @ renderForest i ys"
  by (induction i xs rule: renderForest.induct) simp_all

lemma renderForest_links:
  "renderForest i (map linkOf bs) = concat (map (renderBookmark (replicate i CHR '' '')) bs)"
  by (induction bs) (simp_all add: linkOf_def renderBookmark_def renderAttribute_def split: option.splits)

lemma renderLevel_forest:
  assumes "\<And>f. f \<in> set xs \<Longrightarrow> inner f = map_option (renderForest (i + 4)) (sub f)"
  shows "map_option concat
           (those (map (\<lambda>f. case inner f of
                              None \<Rightarrow> None
                            | Some body \<Rightarrow> Some (folderOpen (replicate i CHR '' '') f @ body @
                                                  folderClose (replicate i CHR '' '')))
                    xs))
       = map_option (renderForest i)
           (those (map (\<lambda>f. map_option (FolderItem (f_name f)) (sub f)) xs))"
  using assms
proof (induction xs)
  case Nil
  then show ?case by simp
next
  case (Cons x xs)
  have ih: "map_option concat
           (those (map (\<lambda>f. case inner f of
                              None \<Rightarrow> None
                            | Some body \<Rightarrow> Some (folderOpen (replicate i CHR '' '') f @ body @
                                                  folderClose (replicate i CHR '' '')))
                    xs))
       = map_option (renderForest i)
           (those (map (\<lambda>f. map_option (FolderItem (f_name f)) (sub f)) xs))"
    using Cons by simp
  have x: "inner x = map_option (renderForest (i + 4)) (sub x)" using Cons.prems by simp
  show ?case
  proof (cases "sub x")
    case None
    with x show ?thesis by simp
  next
    case (Some s)
    with x ih show ?thesis
      by (cases "those (map (\<lambda>f. map_option (FolderItem (f_name f)) (sub f)) xs)";
          cases "those (map (\<lambda>f. case inner f of
                              None \<Rightarrow> None
                            | Some body \<Rightarrow> Some (folderOpen (replicate i CHR '' '') f @ body @
                                                  folderClose (replicate i CHR '' '')))
                    xs)")
         (simp_all add: folderOpen_def folderClose_def)
  qed
qed

lemma renderItems_forest:
  "renderItems fuel library parent i = map_option (renderForest i) (forest fuel library parent)"
proof (induction fuel arbitrary: parent i)
  case 0
  then show ?case by simp
next
  case (Suc fuel)
  let ?xs = "filter (\<lambda>f. parentId f = parent) (folders library)"
  let ?R = "those (map (\<lambda>f. case renderItems fuel library (Some (f_id f)) (i + 4) of
                              None \<Rightarrow> None
                            | Some body \<Rightarrow> Some (folderOpen (replicate i CHR '' '') f @ body @
                                                  folderClose (replicate i CHR '' '')))
                    ?xs)"
  let ?F = "those (map (\<lambda>f. map_option (FolderItem (f_name f)) (forest fuel library (Some (f_id f)))) ?xs)"
  have eq: "map_option concat ?R = map_option (renderForest i) ?F"
    by (rule renderLevel_forest) (simp add: Suc.IH)
  show ?case
  proof (cases ?F)
    case None
    with eq have "?R = None" by simp
    with None show ?thesis by (simp add: Let_def)
  next
    case (Some fs)
    with eq obtain rendered where r: "?R = Some rendered" "concat rendered = renderForest i fs"
      by (cases ?R) auto
    with Some show ?thesis
      by (simp add: Let_def renderForest_append renderForest_links)
  qed
qed

lemma exportToHTML_forest:
  "exportToHTML fuel library =
     map_option (\<lambda>items. htmlHeader @ renderForest 4 items @ htmlFooter) (forest fuel library None)"
  by (cases "forest fuel library None") (simp_all add: exportToHTML_def renderItems_forest)

subsection \<open>The document of a hierarchy and the library read from it\<close>

text \<open>
  The document of a hierarchy, as the HTML parser builds it from the text of the export.
  An item is a \<^verbatim>\<open>dt\<close> element. For a link it holds the \<^verbatim>\<open>a\<close> element and the white space
  up to the next tag. For a folder it holds the \<^verbatim>\<open>h3\<close> element, white space, the \<^verbatim>\<open>dl\<close>
  element of the folder's items, and a \<^verbatim>\<open>p\<close> element: the \<^verbatim>\<open><p>\<close> that the export writes
  after \<^verbatim>\<open></DL>\<close> is opened inside the \<^verbatim>\<open>dt\<close> and takes the white space up to the next
  tag. A \<^verbatim>\<open>dl\<close> element begins with the \<^verbatim>\<open>p\<close> element of the \<^verbatim>\<open><p>\<close> written after
  \<^verbatim>\<open><DL>\<close>. \<open>i\<close> is the indentation of the items and \<open>w\<close> the white space before the
  tag that follows the last of them.
\<close>

definition textNodes :: "string \<Rightarrow> DomNode list" where
  "textNodes s = (if s = [] then [] else [TextNode s])"

definition domAttribute :: "string \<Rightarrow> string option \<Rightarrow> (string \<times> string) list" where
  "domAttribute name v = (case v of None \<Rightarrow> [] | Some d \<Rightarrow> if d \<noteq> [] then [(name, d)] else [])"

definition linkElement :: "string \<Rightarrow> string \<Rightarrow> string option \<Rightarrow> string option \<Rightarrow> DomNode" where
  "linkElement t u d ic =
     Element ''a'' ((''href'', u) # domAttribute ''add_date'' d @ domAttribute ''icon'' ic) (textNodes t)"

fun domItems :: "nat \<Rightarrow> string \<Rightarrow> Item list \<Rightarrow> DomNode list" where
  "domItems i w [] = []"
| "domItems i w (LinkItem t u d ic # items) =
     Element ''dt'' []
       [linkElement t u d ic,
        TextNode (CHR 0x0A # (if items = [] then w else replicate i CHR '' ''))]
     # domItems i w items"
| "domItems i w (FolderItem name sub # items) =
     Element ''dt'' []
       [Element ''h3'' [] (textNodes name),
        TextNode (CHR 0x0A # replicate i CHR '' ''),
        Element ''dl'' []
          (Element ''p'' []
             [TextNode (CHR 0x0A # (if sub = [] then replicate i CHR '' '' else replicate (i + 4) CHR '' ''))]
           # domItems (i + 4) (replicate i CHR '' '') sub),
        Element ''p'' [] [TextNode (CHR 0x0A # (if items = [] then w else replicate i CHR '' ''))]]
     # domItems i w items"

definition domList :: "nat \<Rightarrow> string \<Rightarrow> Item list \<Rightarrow> DomNode" where
  "domList i w items =
     Element ''dl'' []
       (Element ''p'' [] [TextNode (CHR 0x0A # (if items = [] then w else replicate i CHR '' ''))]
        # domItems i w items)"

definition document :: "Item list \<Rightarrow> DomNode" where
  "document items =
     Element ''#document'' []
       [Element ''html'' []
          [Element ''head'' []
             [Element ''meta'' [(''http-equiv'', ''Content-Type''), (''content'', ''text/html; charset=UTF-8'')] [],
              TextNode [CHR 0x0A],
              Element ''title'' [] [TextNode ''Bookmarks''],
              TextNode [CHR 0x0A]],
           Element ''body'' []
             [Element ''h1'' [] [TextNode ''Bookmarks''],
              TextNode [CHR 0x0A],
              domList 4 [] items,
              Element ''p'' [] []]]]"

text \<open>
  The library that \<open>processNode\<close> reads from such a document. At each list it draws an
  identifier for every link and then, folder by folder, one for the folder and those of
  the folder's list. \<open>linkCount\<close> is the number of links of a list and \<open>weight\<close> the
  number of identifiers drawn for its folders and everything below them.
  \<open>flatLinks rnd k cur\<close> are the bookmarks made of the links of a list from the \<open>k\<close>-th
  identifier on; \<open>flatFolders\<close> and \<open>flatBookmarks\<close> are the folders, and the bookmarks
  below the folders, of a list whose first folder draws the \<open>k\<close>-th identifier.
\<close>

fun linkCount :: "Item list \<Rightarrow> nat" where
  "linkCount [] = 0"
| "linkCount (LinkItem t u d ic # items) = Suc (linkCount items)"
| "linkCount (FolderItem name sub # items) = linkCount items"

fun weight :: "Item list \<Rightarrow> nat" where
  "weight [] = 0"
| "weight (LinkItem t u d ic # items) = weight items"
| "weight (FolderItem name sub # items) = Suc (linkCount sub + weight sub) + weight items"

fun flatLinks :: "(nat \<Rightarrow> string) \<Rightarrow> nat \<Rightarrow> string option \<Rightarrow> Item list \<Rightarrow> Bookmark list" where
  "flatLinks rnd k cur [] = []"
| "flatLinks rnd k cur (LinkItem t u d ic # items) =
     \<lparr>b_id = rnd k, title = t, url = u, addDate = d, icon = ic, tags = None, folder = cur\<rparr>
     # flatLinks rnd (Suc k) cur items"
| "flatLinks rnd k cur (FolderItem name sub # items) = flatLinks rnd k cur items"

fun flatFolders :: "(nat \<Rightarrow> string) \<Rightarrow> nat \<Rightarrow> string option \<Rightarrow> Item list \<Rightarrow> Folder list" where
  "flatFolders rnd k cur [] = []"
| "flatFolders rnd k cur (LinkItem t u d ic # items) = flatFolders rnd k cur items"
| "flatFolders rnd k cur (FolderItem name sub # items) =
     \<lparr>f_id = rnd k, f_name = name, parentId = cur\<rparr>
     # flatFolders rnd (Suc k + linkCount sub) (Some (rnd k)) sub
     @ flatFolders rnd (Suc k + linkCount sub + weight sub) cur items"

fun flatBookmarks :: "(nat \<Rightarrow> string) \<Rightarrow> nat \<Rightarrow> string option \<Rightarrow> Item list \<Rightarrow> Bookmark list" where
  "flatBookmarks rnd k cur [] = []"
| "flatBookmarks rnd k cur (LinkItem t u d ic # items) = flatBookmarks rnd k cur items"
| "flatBookmarks rnd k cur (FolderItem name sub # items) =
     flatLinks rnd (Suc k) (Some (rnd k)) sub
     @ flatBookmarks rnd (Suc k + linkCount sub) (Some (rnd k)) sub
     @ flatBookmarks rnd (Suc k + linkCount sub + weight sub) cur items"

text \<open>
  The texts that the round trip leaves as they are: a text is \<open>plain\<close> when it has no
  carriage return (which the parser turns into a line feed) and no NUL (which it drops),
  and a date or an icon is either absent or plain and not empty (an empty one is not
  written). A hierarchy is \<open>wellFormed\<close> when every name, title, url, date and icon is
  of this kind and no name or title is empty.
\<close>

definition plain :: "string \<Rightarrow> bool" where
  "plain s \<longleftrightarrow> CHR 0x0D \<notin> set s \<and> CHR 0x00 \<notin> set s"

definition plainAttr :: "string option \<Rightarrow> bool" where
  "plainAttr v = (case v of None \<Rightarrow> True | Some x \<Rightarrow> x \<noteq> [] \<and> plain x)"

fun wellFormed :: "Item list \<Rightarrow> bool" where
  "wellFormed [] = True"
| "wellFormed (LinkItem t u d ic # items) =
     (t \<noteq> [] \<and> plain t \<and> plain u \<and> plainAttr d \<and> plainAttr ic \<and> wellFormed items)"
| "wellFormed (FolderItem name sub # items) =
     (name \<noteq> [] \<and> plain name \<and> wellFormed sub \<and> wellFormed items)"

lemma childrenTagged_domItems:
  "filter (\<lambda>c. isElement c \<and> tagName c = ''dt'') (domItems i w items) = domItems i w items"
  by (induction i w items rule: domItems.induct) simp_all

lemma childrenTagged_domList [simp]:
  "childrenTagged ''dt'' (domList i w items) = domItems i w items"
  by (simp add: childrenTagged_def domList_def childrenTagged_domItems)

lemma pushLink_linkElement:
  assumes "t \<noteq> []" "d \<noteq> Some []" "ic \<noteq> Some []"
  shows "pushLink rnd cur st (linkElement t u d ic) =
     st\<lparr>out_bookmarks := out_bookmarks st @
            [\<lparr>b_id = rnd (out_drawn st), title = t, url = u, addDate = d, icon = ic, tags = None,
              folder = cur\<rparr>],
        out_drawn := Suc (out_drawn st)\<rparr>"
  using assms
  by (cases d; cases ic)
     (auto simp: pushLink_def linkElement_def textNodes_def orElse_def orUndefined_def
        getAttribute_def domAttribute_def)

lemma scopeLinks_Cons_link:
  "concat (map (childrenTagged ''a'') (domItems i w (LinkItem t u d ic # items))) =
     linkElement t u d ic # concat (map (childrenTagged ''a'') (domItems i w items))"
  by (simp add: childrenTagged_def linkElement_def)

lemma scopeLinks_Cons_folder:
  "concat (map (childrenTagged ''a'') (domItems i w (FolderItem name sub # items))) =
     concat (map (childrenTagged ''a'') (domItems i w items))"
  by (simp add: childrenTagged_def)

lemma pushLinks_domItems:
  "wellFormed items \<Longrightarrow>
   foldl (pushLink rnd cur) st (concat (map (childrenTagged ''a'') (domItems i w items))) =
     st\<lparr>out_bookmarks := out_bookmarks st @ flatLinks rnd (out_drawn st) cur items,
        out_drawn := out_drawn st + linkCount items\<rparr>"
proof (induction i w items arbitrary: st rule: domItems.induct)
  case (1 i w)
  then show ?case by simp
next
  case (2 i w t u d ic items)
  from "2.prems" have a: "t \<noteq> []" "d \<noteq> Some []" "ic \<noteq> Some []" "wellFormed items"
    by (auto simp: plainAttr_def)
  show ?case
    unfolding scopeLinks_Cons_link foldl_Cons "2.IH" [OF a(4)] pushLink_linkElement [OF a(1-3)]
    by simp
next
  case (3 i w name sub items)
  then show ?case
    by (simp only: scopeLinks_Cons_folder wellFormed.simps flatLinks.simps linkCount.simps)
qed


text \<open>
  The body of \<^verbatim>\<open>folderNodes.forEach\<close> in \<open>processNode\<close>, and the pairs it runs over.
\<close>

definition folderStep :: "(nat \<Rightarrow> string) \<Rightarrow> string option \<Rightarrow> parser \<Rightarrow> DomNode \<times> DomNode \<Rightarrow> parser" where
  "folderStep rnd currentFolderId acc dh =
     (let folderId = rnd (out_drawn acc);
          acc' = pushFolder rnd currentFolderId acc (snd dh)
      in case querySelector ''dl'' (fst dh) of
           None \<Rightarrow> acc'
         | Some nextDl \<Rightarrow> processNode rnd nextDl (Some folderId) acc')"

lemma processNode_folderStep:
  "processNode rnd node cur st =
     foldl (folderStep rnd cur) (foldl (pushLink rnd cur) st (scopeLinks node)) (scopeHeadings node)"
  unfolding folderStep_def by (subst processNode.simps) (rule refl)

lemma scopeLinks_domList:
  "scopeLinks (Element ''dl'' [] (Element ''p'' [] ts # domItems i w items)) =
     concat (map (childrenTagged ''a'') (domItems i w items))"
  by (simp add: scopeLinks_def childrenTagged_def [of "''dt''"] childrenTagged_domItems)

definition headingsOf :: "DomNode list \<Rightarrow> (DomNode \<times> DomNode) list" where
  "headingsOf dts = concat (map (\<lambda>dt. map (\<lambda>h3. (dt, h3)) (childrenTagged ''h3'' dt)) dts)"

lemma scopeHeadings_domList:
  "scopeHeadings (Element ''dl'' [] (Element ''p'' [] ts # domItems i w items)) =
     headingsOf (domItems i w items)"
  by (simp add: scopeHeadings_def headingsOf_def childrenTagged_def [of "''dt''"] childrenTagged_domItems)

lemma headingsOf_link:
  "headingsOf (domItems i w (LinkItem t u d ic # items)) = headingsOf (domItems i w items)"
  by (simp add: headingsOf_def childrenTagged_def linkElement_def)

lemma headingsOf_folder:
  "headingsOf (domItems i w (FolderItem name sub # items)) =
     (hd (domItems i w (FolderItem name sub # items)), Element ''h3'' [] (textNodes name))
     # headingsOf (domItems i w items)"
  by (simp add: headingsOf_def childrenTagged_def)

lemma querySelector_folder:
  "querySelector ''dl'' (hd (domItems i w (FolderItem name sub # items))) =
     Some (Element ''dl'' []
          (Element ''p'' []
             [TextNode (CHR 0x0A # (if sub = [] then replicate i CHR '' '' else replicate (i + 4) CHR '' ''))]
           # domItems (i + 4) (replicate i CHR '' '') sub))"
  by (simp add: querySelector_def querySelectorAll_def textNodes_def)

lemma pushFolder_heading:
  "name \<noteq> [] \<Longrightarrow>
   pushFolder rnd cur acc (Element ''h3'' [] (textNodes name)) =
     acc\<lparr>out_folders := out_folders acc @ [\<lparr>f_id = rnd (out_drawn acc), f_name = name, parentId = cur\<rparr>],
         out_drawn := Suc (out_drawn acc)\<rparr>"
  by (simp add: pushFolder_def textNodes_def orElse_def)

lemma folderSteps_domItems:
  "wellFormed items \<Longrightarrow>
   foldl (folderStep rnd cur) acc (headingsOf (domItems i w items)) =
     acc\<lparr>out_bookmarks := out_bookmarks acc @ flatBookmarks rnd (out_drawn acc) cur items,
         out_folders := out_folders acc @ flatFolders rnd (out_drawn acc) cur items,
         out_drawn := out_drawn acc + weight items\<rparr>"
proof (induction i w items arbitrary: acc cur rule: domItems.induct)
  case (1 i w)
  then show ?case by (simp add: headingsOf_def)
next
  case (2 i w t u d ic items)
  then show ?case by (simp only: headingsOf_link wellFormed.simps flatBookmarks.simps
        flatFolders.simps weight.simps)
next
  case (3 i w name sub items)
  from "3.prems" have wf: "name \<noteq> []" "wellFormed sub" "wellFormed items" by simp_all
  let ?dt = "hd (domItems i w (FolderItem name sub # items))"
  let ?acc1 = "acc\<lparr>out_folders := out_folders acc @ [\<lparr>f_id = rnd (out_drawn acc), f_name = name, parentId = cur\<rparr>],
         out_drawn := Suc (out_drawn acc)\<rparr>"
  let ?cur = "Some (rnd (out_drawn acc))"
  let ?acc2 = "?acc1\<lparr>out_bookmarks := out_bookmarks ?acc1 @ flatLinks rnd (out_drawn ?acc1) ?cur sub,
        out_drawn := out_drawn ?acc1 + linkCount sub\<rparr>"
  let ?acc3 = "?acc2\<lparr>out_bookmarks := out_bookmarks ?acc2 @ flatBookmarks rnd (out_drawn ?acc2) ?cur sub,
         out_folders := out_folders ?acc2 @ flatFolders rnd (out_drawn ?acc2) ?cur sub,
         out_drawn := out_drawn ?acc2 + weight sub\<rparr>"
  have step: "folderStep rnd cur acc (?dt, Element ''h3'' [] (textNodes name)) = ?acc3"
    unfolding folderStep_def Let_def fst_conv snd_conv querySelector_folder option.case
      pushFolder_heading [OF wf(1)] processNode_folderStep scopeLinks_domList scopeHeadings_domList
      pushLinks_domItems [OF wf(2)] "3.IH"(1) [OF wf(2)]
    by (rule refl)
  show ?case
    unfolding headingsOf_folder foldl_Cons step "3.IH"(2) [OF wf(3)]
    by simp
qed

lemma processNode_domList:
  "wellFormed items \<Longrightarrow>
   processNode rnd (domList i w items) cur st =
     st\<lparr>out_bookmarks := out_bookmarks st @ flatLinks rnd (out_drawn st) cur items
            @ flatBookmarks rnd (out_drawn st + linkCount items) cur items,
        out_folders := out_folders st @ flatFolders rnd (out_drawn st + linkCount items) cur items,
        out_drawn := out_drawn st + linkCount items + weight items\<rparr>"
  unfolding domList_def processNode_folderStep scopeLinks_domList scopeHeadings_domList
  by (simp add: pushLinks_domItems folderSteps_domItems)

lemma querySelector_document:
  "querySelector ''dl'' (document items) = Some (domList 4 [] items)"
  by (simp add: querySelector_def querySelectorAll_def document_def domList_def)

lemma parseBookmarksHTML_document:
  assumes "wellFormed items" "parseFromString html = document items"
  shows "parseBookmarksHTML rnd parseFromString html =
     \<lparr>bookmarks = flatLinks rnd 0 None items @ flatBookmarks rnd (linkCount items) None items,
      folders = flatFolders rnd (linkCount items) None items\<rparr>"
  by (simp add: parseBookmarksHTML_def assms querySelector_document processNode_domList)

subsection \<open>The hierarchy of the library read\<close>

text \<open>
  \<open>depth\<close> is the number of nested folders of a hierarchy. A list of items is
  \<open>ordered\<close> when its folders come before its links, at every level; \<open>folderItems\<close>
  and \<open>linkItems\<close> are the two parts of a list.
\<close>

fun depth :: "Item list \<Rightarrow> nat" where
  "depth [] = 0"
| "depth (LinkItem t u d ic # items) = depth items"
| "depth (FolderItem name sub # items) = max (Suc (depth sub)) (depth items)"

fun linksOnly :: "Item list \<Rightarrow> bool" where
  "linksOnly [] = True"
| "linksOnly (LinkItem t u d ic # items) = linksOnly items"
| "linksOnly (FolderItem name sub # items) = False"

fun ordered :: "Item list \<Rightarrow> bool" where
  "ordered [] = True"
| "ordered (LinkItem t u d ic # items) = linksOnly items"
| "ordered (FolderItem name sub # items) = (ordered sub \<and> ordered items)"

fun folderItems :: "Item list \<Rightarrow> Item list" where
  "folderItems [] = []"
| "folderItems (LinkItem t u d ic # items) = folderItems items"
| "folderItems (FolderItem name sub # items) = FolderItem name sub # folderItems items"

fun linkItems :: "Item list \<Rightarrow> Item list" where
  "linkItems [] = []"
| "linkItems (LinkItem t u d ic # items) = LinkItem t u d ic # linkItems items"
| "linkItems (FolderItem name sub # items) = linkItems items"

lemma linksOnly_split: "linksOnly items \<Longrightarrow> folderItems items = [] \<and> linkItems items = items"
  by (induction items rule: linksOnly.induct) simp_all

lemma linksOnly_ordered: "linksOnly items \<Longrightarrow> ordered items"
  by (induction items rule: linksOnly.induct) simp_all

lemma ordered_split: "ordered items \<Longrightarrow> folderItems items @ linkItems items = items"
  by (induction items rule: ordered.induct) (simp_all add: linksOnly_split)

lemma linkOf_flatLinks: "map linkOf (flatLinks rnd k cur items) = linkItems items"
  by (induction rnd k cur items rule: flatLinks.induct) (simp_all add: linkOf_def)

lemma flatLinks_folder: "b \<in> set (flatLinks rnd k cur items) \<Longrightarrow> folder b = cur"
  by (induction rnd k cur items rule: flatLinks.induct) auto

lemma flatFolders_parent:
  "f \<in> set (flatFolders rnd k cur items) \<Longrightarrow>
     parentId f = cur \<or> (\<exists>j. k \<le> j \<and> j < k + weight items \<and> parentId f = Some (rnd j))"
proof (induction rnd k cur items rule: flatFolders.induct)
  case (1 rnd k cur)
  then show ?case by simp
next
  case (2 rnd k cur t u d ic items)
  then show ?case by simp
next
  case (3 rnd k cur name sub items)
  from "3.prems" consider "parentId f = cur"
    | "f \<in> set (flatFolders rnd (Suc k + linkCount sub) (Some (rnd k)) sub)"
    | "f \<in> set (flatFolders rnd (Suc k + linkCount sub + weight sub) cur items)"
    by auto
  then show ?case
  proof cases
    case 1
    then show ?thesis by simp
  next
    case 2
    from "3.IH"(1) [OF 2] show ?thesis
    proof
      assume "parentId f = Some (rnd k)"
      then show ?thesis by (intro disjI2 exI [of _ k]) simp
    next
      assume "\<exists>j\<ge>Suc k + linkCount sub. j < Suc k + linkCount sub + weight sub \<and> parentId f = Some (rnd j)"
      then obtain j where "Suc k + linkCount sub \<le> j" "j < Suc k + linkCount sub + weight sub"
        "parentId f = Some (rnd j)" by blast
      then show ?thesis by (intro disjI2 exI [of _ j]) simp
    qed
  next
    case 3
    from "3.IH"(2) [OF 3] show ?thesis
    proof
      assume "parentId f = cur"
      then show ?thesis by simp
    next
      assume "\<exists>j\<ge>Suc k + linkCount sub + weight sub. j < Suc k + linkCount sub + weight sub + weight items \<and> parentId f = Some (rnd j)"
      then obtain j where "Suc k + linkCount sub + weight sub \<le> j"
        "j < Suc k + linkCount sub + weight sub + weight items"
        "parentId f = Some (rnd j)" by blast
      then show ?thesis by (intro disjI2 exI [of _ j]) simp
    qed
  qed
qed

lemma flatBookmarks_folder:
  "b \<in> set (flatBookmarks rnd k cur items) \<Longrightarrow>
     \<exists>j. k \<le> j \<and> j < k + weight items \<and> folder b = Some (rnd j)"
proof (induction rnd k cur items rule: flatBookmarks.induct)
  case (1 rnd k cur)
  then show ?case by simp
next
  case (2 rnd k cur t u d ic items)
  then show ?case by simp
next
  case (3 rnd k cur name sub items)
  from "3.prems" consider "b \<in> set (flatLinks rnd (Suc k) (Some (rnd k)) sub)"
    | "b \<in> set (flatBookmarks rnd (Suc k + linkCount sub) (Some (rnd k)) sub)"
    | "b \<in> set (flatBookmarks rnd (Suc k + linkCount sub + weight sub) cur items)"
    by auto
  then show ?case
  proof cases
    case 1
    then have "folder b = Some (rnd k)" by (rule flatLinks_folder)
    then show ?thesis by (intro exI [of _ k]) simp
  next
    case 2
    from "3.IH"(1) [OF 2] obtain j where "Suc k + linkCount sub \<le> j"
      "j < Suc k + linkCount sub + weight sub" "folder b = Some (rnd j)" by blast
    then show ?thesis by (intro exI [of _ j]) simp
  next
    case 3
    from "3.IH"(2) [OF 3] obtain j where "Suc k + linkCount sub + weight sub \<le> j"
      "j < Suc k + linkCount sub + weight sub + weight items" "folder b = Some (rnd j)" by blast
    then show ?thesis by (intro exI [of _ j]) simp
  qed
qed

lemma filter_flatFolders_outside:
  assumes "p \<noteq> cur" "\<And>j. k \<le> j \<Longrightarrow> j < k + weight items \<Longrightarrow> p \<noteq> Some (rnd j)"
  shows "filter (\<lambda>f. parentId f = p) (flatFolders rnd k cur items) = []"
  using assms flatFolders_parent [of _ rnd k cur items] by (auto simp: filter_empty_conv)

lemma filter_flatBookmarks_outside:
  assumes "\<And>j. k \<le> j \<Longrightarrow> j < k + weight items \<Longrightarrow> p \<noteq> Some (rnd j)"
  shows "filter (\<lambda>b. folder b = p) (flatBookmarks rnd k cur items) = []"
  using assms flatBookmarks_folder [of _ rnd k cur items] by (auto simp: filter_empty_conv)

lemma filter_flatLinks_same:
  "filter (\<lambda>b. folder b = cur) (flatLinks rnd k cur items) = flatLinks rnd k cur items"
  using flatLinks_folder [of _ rnd k cur items] by (auto simp: filter_id_conv)

lemma filter_flatLinks_other:
  "p \<noteq> cur \<Longrightarrow> filter (\<lambda>b. folder b = p) (flatLinks rnd k cur items) = []"
  using flatLinks_folder [of _ rnd k cur items] by (auto simp: filter_empty_conv)


text \<open>
  \<open>holds library rnd k cur items\<close>: below each of the identifiers drawn for the folders
  of \<open>items\<close>, the library has exactly what \<open>flatFolders\<close> and \<open>flatBookmarks\<close> put
  there.
\<close>

definition holds :: "BookmarkLibrary \<Rightarrow> (nat \<Rightarrow> string) \<Rightarrow> nat \<Rightarrow> string option \<Rightarrow> Item list \<Rightarrow> bool" where
  "holds library rnd k cur items \<longleftrightarrow>
     (\<forall>j. k \<le> j \<and> j < k + weight items \<longrightarrow>
        filter (\<lambda>f. parentId f = Some (rnd j)) (folders library) =
          filter (\<lambda>f. parentId f = Some (rnd j)) (flatFolders rnd k cur items) \<and>
        filter (\<lambda>b. folder b = Some (rnd j)) (bookmarks library) =
          filter (\<lambda>b. folder b = Some (rnd j)) (flatBookmarks rnd k cur items))"

lemma forest_flat_folders:
  assumes "inj rnd"
  shows "ordered items \<Longrightarrow> depth items \<le> n \<Longrightarrow>
     (\<And>j. k \<le> j \<Longrightarrow> j < k + weight items \<Longrightarrow> cur \<noteq> Some (rnd j)) \<Longrightarrow>
     holds library rnd k cur items \<Longrightarrow>
     those (map (\<lambda>f. map_option (FolderItem (f_name f)) (forest n library (Some (f_id f))))
              (filter (\<lambda>f. parentId f = cur) (flatFolders rnd k cur items)))
       = Some (folderItems items)"
proof (induction items arbitrary: k cur n rule: weight.induct)
  case 1
  then show ?case by simp
next
  case (2 t u d ic items)
  have "holds library rnd k cur items"
    using "2.prems"(4) by (simp add: holds_def)
  with "2.IH" [of n k cur] "2.prems" show ?case by (simp add: linksOnly_ordered)
next
  case (3 name sub items)
  note inj = inj_eq [OF assms]
  define k1 where "k1 = Suc k + linkCount sub"
  define k2 where "k2 = k1 + weight sub"
  define cur0 where "cur0 = Some (rnd k)"
  define e where "e = \<lparr>f_id = rnd k, f_name = name, parentId = cur\<rparr>"
  define A where "A = flatFolders rnd k1 cur0 sub"
  define B where "B = flatFolders rnd k2 cur items"
  define Ls where "Ls = flatLinks rnd (Suc k) cur0 sub"
  define Ab where "Ab = flatBookmarks rnd k1 cur0 sub"
  define Bb where "Bb = flatBookmarks rnd k2 cur items"
  have ff: "flatFolders rnd k cur (FolderItem name sub # items) = e # A @ B"
    by (simp add: e_def A_def B_def k1_def k2_def cur0_def)
  have fb: "flatBookmarks rnd k cur (FolderItem name sub # items) = Ls @ Ab @ Bb"
    by (simp add: Ls_def Ab_def Bb_def k1_def k2_def cur0_def)
  have w: "k + weight (FolderItem name sub # items) = k2 + weight items"
    by (simp add: k1_def k2_def)
  have k12: "k < k1" "k1 \<le> k2" by (simp_all add: k1_def k2_def)
  have cur: "\<And>j. k \<le> j \<Longrightarrow> j < k2 + weight items \<Longrightarrow> cur \<noteq> Some (rnd j)"
    using "3.prems"(3) w by simp
  have cur_cur0: "cur \<noteq> cur0" unfolding cur0_def using cur [of k] k12 by simp
  have H: "\<And>j. k \<le> j \<Longrightarrow> j < k2 + weight items \<Longrightarrow>
        filter (\<lambda>f. parentId f = Some (rnd j)) (folders library) =
          filter (\<lambda>f. parentId f = Some (rnd j)) (e # A @ B) \<and>
        filter (\<lambda>b. folder b = Some (rnd j)) (bookmarks library) =
          filter (\<lambda>b. folder b = Some (rnd j)) (Ls @ Ab @ Bb)"
    using "3.prems"(4) unfolding holds_def w ff fb by blast
  have e_par: "parentId e = cur" by (simp add: e_def)
  have A_out: "\<And>p. p \<noteq> cur0 \<Longrightarrow> (\<And>j. k1 \<le> j \<Longrightarrow> j < k2 \<Longrightarrow> p \<noteq> Some (rnd j)) \<Longrightarrow>
      filter (\<lambda>f. parentId f = p) A = []"
    unfolding A_def k2_def by (rule filter_flatFolders_outside)
  have B_out: "\<And>p. p \<noteq> cur \<Longrightarrow> (\<And>j. k2 \<le> j \<Longrightarrow> j < k2 + weight items \<Longrightarrow> p \<noteq> Some (rnd j)) \<Longrightarrow>
      filter (\<lambda>f. parentId f = p) B = []"
    unfolding B_def by (rule filter_flatFolders_outside)
  have Ab_out: "\<And>p. (\<And>j. k1 \<le> j \<Longrightarrow> j < k2 \<Longrightarrow> p \<noteq> Some (rnd j)) \<Longrightarrow>
      filter (\<lambda>b. folder b = p) Ab = []"
    unfolding Ab_def k2_def by (rule filter_flatBookmarks_outside)
  have Bb_out: "\<And>p. (\<And>j. k2 \<le> j \<Longrightarrow> j < k2 + weight items \<Longrightarrow> p \<noteq> Some (rnd j)) \<Longrightarrow>
      filter (\<lambda>b. folder b = p) Bb = []"
    unfolding Bb_def by (rule filter_flatBookmarks_outside)
  have Ls_out: "\<And>p. p \<noteq> cur0 \<Longrightarrow> filter (\<lambda>b. folder b = p) Ls = []"
    unfolding Ls_def by (rule filter_flatLinks_other)
  have Ls_same: "filter (\<lambda>b. folder b = cur0) Ls = Ls"
    unfolding Ls_def by (rule filter_flatLinks_same)
  \<comment> \<open>the nested level\<close>
  have holds_sub: "holds library rnd k1 cur0 sub"
    unfolding holds_def
  proof (intro allI impI conjI)
    fix j assume "k1 \<le> j \<and> j < k1 + weight sub"
    then have j: "k1 \<le> j" "j < k2" by (simp_all add: k2_def)
    then have kj: "k \<le> j" "j < k2 + weight items" using k12 by simp_all
    have pc: "Some (rnd j) \<noteq> cur" using cur [OF kj] by simp
    have b: "filter (\<lambda>f. parentId f = Some (rnd j)) B = []"
      using j by (intro B_out pc) (simp add: inj)
    show "filter (\<lambda>f. parentId f = Some (rnd j)) (folders library) =
          filter (\<lambda>f. parentId f = Some (rnd j)) (flatFolders rnd k1 cur0 sub)"
      using H [OF kj] b pc by (simp add: e_par A_def)
    have l: "filter (\<lambda>b. folder b = Some (rnd j)) Ls = []"
      using j k12 by (intro Ls_out) (simp add: cur0_def inj)
    have bb: "filter (\<lambda>b. folder b = Some (rnd j)) Bb = []"
      using j by (intro Bb_out) (simp add: inj)
    show "filter (\<lambda>b. folder b = Some (rnd j)) (bookmarks library) =
          filter (\<lambda>b. folder b = Some (rnd j)) (flatBookmarks rnd k1 cur0 sub)"
      using H [OF kj] l bb by (simp add: Ab_def)
  qed
  have holds_items: "holds library rnd k2 cur items"
    unfolding holds_def
  proof (intro allI impI conjI)
    fix j assume "k2 \<le> j \<and> j < k2 + weight items"
    then have j: "k2 \<le> j" "j < k2 + weight items" by simp_all
    then have kj: "k \<le> j" using k12 by simp
    have pc: "Some (rnd j) \<noteq> cur" using cur [OF kj j(2)] by simp
    have a: "filter (\<lambda>f. parentId f = Some (rnd j)) A = []"
      using j k12 by (intro A_out) (simp_all add: cur0_def inj)
    show "filter (\<lambda>f. parentId f = Some (rnd j)) (folders library) =
          filter (\<lambda>f. parentId f = Some (rnd j)) (flatFolders rnd k2 cur items)"
      using H [OF kj j(2)] a pc by (simp add: e_par B_def)
    have l: "filter (\<lambda>b. folder b = Some (rnd j)) Ls = []"
      using j k12 by (intro Ls_out) (simp add: cur0_def inj)
    have ab: "filter (\<lambda>b. folder b = Some (rnd j)) Ab = []"
      using j by (intro Ab_out) (simp add: inj)
    show "filter (\<lambda>b. folder b = Some (rnd j)) (bookmarks library) =
          filter (\<lambda>b. folder b = Some (rnd j)) (flatBookmarks rnd k2 cur items)"
      using H [OF kj j(2)] l ab by (simp add: Bb_def)
  qed
  from "3.prems"(2) obtain n' where n: "n = Suc n'" "depth sub \<le> n'" "depth items \<le> n"
    by (cases n) simp_all
  from "3.prems"(1) have ord: "ordered sub" "ordered items" by simp_all
  \<comment> \<open>the folder itself\<close>
  have kk: "k \<le> k" "k < k2 + weight items" using k12 by simp_all
  have fsub: "filter (\<lambda>f. parentId f = cur0) (folders library) = filter (\<lambda>f. parentId f = cur0) A"
  proof -
    have "filter (\<lambda>f. parentId f = cur0) B = []"
      using k12 cur_cur0 by (intro B_out) (simp_all add: cur0_def inj)
    then show ?thesis using H [OF kk] cur_cur0 by (simp add: cur0_def e_par)
  qed
  have bsub: "filter (\<lambda>b. folder b = cur0) (bookmarks library) = Ls"
  proof -
    have "filter (\<lambda>b. folder b = cur0) Ab = []"
      using k12 by (intro Ab_out) (simp add: cur0_def inj)
    moreover have "filter (\<lambda>b. folder b = cur0) Bb = []"
      using k12 by (intro Bb_out) (simp add: cur0_def inj)
    ultimately show ?thesis using H [OF kk] Ls_same by (simp add: cur0_def)
  qed
  have "those (map (\<lambda>f. map_option (FolderItem (f_name f)) (forest n' library (Some (f_id f))))
              (filter (\<lambda>f. parentId f = cur0) (flatFolders rnd k1 cur0 sub)))
       = Some (folderItems sub)"
  proof (rule "3.IH"(1) [OF ord(1) n(2) _ holds_sub])
    fix j assume "k1 \<le> j"
    then show "cur0 \<noteq> Some (rnd j)" using k12 by (simp add: cur0_def inj)
  qed
  then have sub: "forest n library cur0 = Some sub"
    unfolding n(1) by (simp add: fsub bsub A_def Ls_def linkOf_flatLinks ordered_split [OF ord(1)])
  have rest: "those (map (\<lambda>f. map_option (FolderItem (f_name f)) (forest n library (Some (f_id f))))
              (filter (\<lambda>f. parentId f = cur) B))
       = Some (folderItems items)"
    unfolding B_def
  proof (rule "3.IH"(2) [OF ord(2) n(3) _ holds_items])
    fix j assume "k2 \<le> j" "j < k2 + weight items"
    then show "cur \<noteq> Some (rnd j)" using cur [of j] k12 by simp
  qed
  have "filter (\<lambda>f. parentId f = cur) A = []"
  proof (rule A_out [OF cur_cur0])
    fix j assume "k1 \<le> j" "j < k2"
    then show "cur \<noteq> Some (rnd j)" using cur [of j] k12 by simp
  qed
  then show ?case
    unfolding ff using sub rest by (simp add: e_par) (simp add: e_def cur0_def)
qed

text \<open>
  The same conditions on the texts, stated for a library: they carry over to its
  hierarchy.
\<close>

definition wellFormedLibrary :: "BookmarkLibrary \<Rightarrow> bool" where
  "wellFormedLibrary library \<longleftrightarrow>
     list_all (\<lambda>f. f_name f \<noteq> [] \<and> plain (f_name f)) (folders library) \<and>
     list_all (\<lambda>b. title b \<noteq> [] \<and> plain (title b) \<and> plain (url b) \<and>
                   plainAttr (addDate b) \<and> plainAttr (icon b)) (bookmarks library)"

lemma those_map_list_all2:
  "those (map g xs) = Some ys \<Longrightarrow> list_all2 (\<lambda>x y. g x = Some y) xs ys"
  by (induction xs arbitrary: ys) (auto split: option.splits)

lemma wellFormed_append: "wellFormed (xs @ ys) \<longleftrightarrow> wellFormed xs \<and> wellFormed ys"
  by (induction xs rule: wellFormed.induct) auto

lemma ordered_folders_links:
  "linksOnly ys \<Longrightarrow> list_all (\<lambda>x. case x of FolderItem name sub \<Rightarrow> ordered sub | _ \<Rightarrow> False) xs \<Longrightarrow>
   ordered (xs @ ys)"
  by (induction xs rule: ordered.induct) (simp_all add: linksOnly_ordered)

lemma linksOnly_links: "linksOnly (map linkOf bs)"
  by (induction bs) (simp_all add: linkOf_def)

lemma depth_append: "depth (xs @ ys) = max (depth xs) (depth ys)"
  by (induction xs rule: depth.induct) (simp_all add: max.assoc max.left_commute)

lemma depth_links: "depth (map linkOf bs) = 0"
  by (induction bs) (simp_all add: linkOf_def)

lemma forest_SucD:
  assumes "forest (Suc n) library p = Some items"
  obtains subs where
    "items = subs @ map linkOf (filter (\<lambda>b. folder b = p) (bookmarks library))"
    "list_all2 (\<lambda>f it. \<exists>sub. forest n library (Some (f_id f)) = Some sub \<and> it = FolderItem (f_name f) sub)
       (filter (\<lambda>f. parentId f = p) (folders library)) subs"
proof -
  from assms obtain subs where
    s: "those (map (\<lambda>f. map_option (FolderItem (f_name f)) (forest n library (Some (f_id f))))
                    (filter (\<lambda>f. parentId f = p) (folders library))) = Some subs"
    and i: "items = subs @ map linkOf (filter (\<lambda>b. folder b = p) (bookmarks library))"
    by (auto split: option.splits)
  from those_map_list_all2 [OF s]
  have "list_all2 (\<lambda>f it. \<exists>sub. forest n library (Some (f_id f)) = Some sub \<and> it = FolderItem (f_name f) sub)
       (filter (\<lambda>f. parentId f = p) (folders library)) subs"
    by (rule list_all2_mono) auto
  with i show ?thesis by (rule that)
qed

lemma forest_wellFormed:
  assumes "wellFormedLibrary library"
  shows "forest n library p = Some items \<Longrightarrow> wellFormed items"
proof (induction n arbitrary: p items)
  case 0
  then show ?case by simp
next
  case (Suc n)
  from Suc.prems obtain subs where
    i: "items = subs @ map linkOf (filter (\<lambda>b. folder b = p) (bookmarks library))"
    and s: "list_all2 (\<lambda>f it. \<exists>sub. forest n library (Some (f_id f)) = Some sub \<and> it = FolderItem (f_name f) sub)
       (filter (\<lambda>f. parentId f = p) (folders library)) subs"
    by (rule forest_SucD)
  have "list_all2 (\<lambda>f it. \<exists>sub. forest n library (Some (f_id f)) = Some sub \<and> it = FolderItem (f_name f) sub)
       fs subs \<Longrightarrow> set fs \<subseteq> set (folders library) \<Longrightarrow> wellFormed subs" for fs
  proof (induction fs subs rule: list_all2_induct)
    case Nil
    then show ?case by simp
  next
    case (Cons f fs it subs)
    then obtain sub where sub: "forest n library (Some (f_id f)) = Some sub" "it = FolderItem (f_name f) sub"
      by auto
    from Cons.prems assms have "f_name f \<noteq> [] \<and> plain (f_name f)"
      by (auto simp: wellFormedLibrary_def list_all_iff)
    with sub Suc.IH [OF sub(1)] Cons show ?case by simp
  qed
  from this [OF s] have "wellFormed subs" by auto
  moreover have "wellFormed (map linkOf bs)" if "set bs \<subseteq> set (bookmarks library)" for bs
    using that assms
    by (induction bs) (auto simp: linkOf_def wellFormedLibrary_def list_all_iff)
  ultimately show ?case unfolding i wellFormed_append by auto
qed

lemma forest_ordered: "forest n library p = Some items \<Longrightarrow> ordered items"
proof (induction n arbitrary: p items)
  case 0
  then show ?case by simp
next
  case (Suc n)
  from Suc.prems obtain subs where
    i: "items = subs @ map linkOf (filter (\<lambda>b. folder b = p) (bookmarks library))"
    and s: "list_all2 (\<lambda>f it. \<exists>sub. forest n library (Some (f_id f)) = Some sub \<and> it = FolderItem (f_name f) sub)
       (filter (\<lambda>f. parentId f = p) (folders library)) subs"
    by (rule forest_SucD)
  have "list_all2 (\<lambda>f it. \<exists>sub. forest n library (Some (f_id f)) = Some sub \<and> it = FolderItem (f_name f) sub)
       fs subs \<Longrightarrow>
     list_all (\<lambda>x. case x of FolderItem name sub \<Rightarrow> ordered sub | _ \<Rightarrow> False) subs" for fs
  proof (induction fs subs rule: list_all2_induct)
    case Nil
    then show ?case by simp
  next
    case (Cons f fs it subs)
    then obtain sub where sub: "forest n library (Some (f_id f)) = Some sub" "it = FolderItem (f_name f) sub"
      by auto
    with Suc.IH [OF sub(1)] Cons show ?case by simp
  qed
  from this [OF s] show ?case unfolding i by (intro ordered_folders_links linksOnly_links)
qed

lemma forest_depth: "forest n library p = Some items \<Longrightarrow> depth items < n"
proof (induction n arbitrary: p items)
  case 0
  then show ?case by simp
next
  case (Suc n)
  from Suc.prems obtain subs where
    i: "items = subs @ map linkOf (filter (\<lambda>b. folder b = p) (bookmarks library))"
    and s: "list_all2 (\<lambda>f it. \<exists>sub. forest n library (Some (f_id f)) = Some sub \<and> it = FolderItem (f_name f) sub)
       (filter (\<lambda>f. parentId f = p) (folders library)) subs"
    by (rule forest_SucD)
  have "list_all2 (\<lambda>f it. \<exists>sub. forest n library (Some (f_id f)) = Some sub \<and> it = FolderItem (f_name f) sub)
       fs subs \<Longrightarrow> depth subs \<le> n" for fs
  proof (induction fs subs rule: list_all2_induct)
    case Nil
    then show ?case by simp
  next
    case (Cons f fs it subs)
    then obtain sub where sub: "forest n library (Some (f_id f)) = Some sub" "it = FolderItem (f_name f) sub"
      by auto
    with Suc.IH [OF sub(1)] Cons show ?case by simp
  qed
  from this [OF s] show ?case unfolding i by (simp add: depth_append depth_links)
qed

lemma forest_flat:
  assumes "inj rnd" "ordered items" "depth items \<le> n"
  shows "forest (Suc n)
       \<lparr>bookmarks = flatLinks rnd 0 None items @ flatBookmarks rnd (linkCount items) None items,
        folders = flatFolders rnd (linkCount items) None items\<rparr> None = Some items"
proof -
  let ?L = "\<lparr>bookmarks = flatLinks rnd 0 None items @ flatBookmarks rnd (linkCount items) None items,
        folders = flatFolders rnd (linkCount items) None items\<rparr>"
  have h: "holds ?L rnd (linkCount items) None items"
    by (simp add: holds_def filter_flatLinks_other)
  have f: "those (map (\<lambda>f. map_option (FolderItem (f_name f)) (forest n ?L (Some (f_id f))))
              (filter (\<lambda>f. parentId f = None) (flatFolders rnd (linkCount items) None items)))
       = Some (folderItems items)"
    by (rule forest_flat_folders [OF assms(1,2,3) _ h]) simp
  have b: "filter (\<lambda>b. folder b = None) (flatBookmarks rnd (linkCount items) None items) = []"
    by (rule filter_flatBookmarks_outside) simp
  show ?thesis
    using f by (simp add: b filter_flatLinks_same linkOf_flatLinks ordered_split [OF assms(2)])
qed

subsection \<open>The tokens of the export\<close>

lemma tokenize_char:
  "c \<noteq> CHR ''<'' \<Longrightarrow> c \<noteq> CHR ''&'' \<Longrightarrow> tokenize r = Some ts \<Longrightarrow>
   tokenize (c # r) = Some (Character c # ts)"
  by (simp add: tokenize.simps)

lemma tokenize_spaces:
  "tokenize r = Some ts \<Longrightarrow>
   tokenize (replicate i CHR '' '' @ r) = Some (map Character (replicate i CHR '' '') @ ts)"
  by (induction i) (simp_all add: tokenize_char)

lemma tokenize_newline:
  "tokenize r = Some ts \<Longrightarrow> tokenize (CHR 0x0A # r) = Some (Character (CHR 0x0A) # ts)"
  by (simp add: tokenize_char)

lemma charRef_entities:
  "charRef (''amp;'' @ r) = Some (''&'', r)"
  "charRef (''lt;'' @ r) = Some (''<'', r)"
  "charRef (''gt;'' @ r) = Some (''>'', r)"
  "charRef (''quot;'' @ r) = Some ([CHR 0x22], r)"
  "charRef (''#039;'' @ r) = Some ([CHR 0x27], r)"
  by (simp_all add: charRef_def)

lemma tokenize_escapeChar:
  "tokenize r = Some ts \<Longrightarrow> tokenize (escapeChar c @ r) = Some (Character c # ts)"
  using charRef_entities [of r]
  by (auto simp: tokenize.simps)

lemma tokenize_escapeHtml:
  "tokenize r = Some ts \<Longrightarrow> tokenize (escapeHtml s @ r) = Some (map Character s @ ts)"
  by (induction s) (simp_all add: escapeHtml_Nil escapeHtml_Cons tokenize_escapeChar del: escapeChar.simps)


lemmas scan_defs = tokenize.simps scanTag_def scanStartTag_def scanEndTag_def scanAttributes.simps
  tagNameChar_def attrNameChar_def isSpace_def isAlpha_def lower_def rawTextTags_def Let_def

lemma tokenize_DT:
  "tokenize r = Some ts \<Longrightarrow> tokenize (''<DT>'' @ r) = Some (StartTag ''dt'' [] # ts)"
  by (simp add: scan_defs)

lemma tokenize_H3:
  "tokenize r = Some ts \<Longrightarrow> tokenize (''<H3>'' @ r) = Some (StartTag ''h3'' [] # ts)"
  by (simp add: scan_defs)

lemma tokenize_H3_end:
  "tokenize r = Some ts \<Longrightarrow> tokenize (''</H3>'' @ r) = Some (EndTag ''h3'' # ts)"
  by (simp add: scan_defs)

lemma tokenize_DL:
  "tokenize r = Some ts \<Longrightarrow> tokenize (''<DL>'' @ r) = Some (StartTag ''dl'' [] # ts)"
  by (simp add: scan_defs)

lemma tokenize_DL_end:
  "tokenize r = Some ts \<Longrightarrow> tokenize (''</DL>'' @ r) = Some (EndTag ''dl'' # ts)"
  by (simp add: scan_defs)

lemma tokenize_p:
  "tokenize r = Some ts \<Longrightarrow> tokenize (''<p>'' @ r) = Some (StartTag ''p'' [] # ts)"
  by (simp add: scan_defs)

lemma tokenize_A_end:
  "tokenize r = Some ts \<Longrightarrow> tokenize (''</A>'' @ r) = Some (EndTag ''a'' # ts)"
  by (simp add: scan_defs)


lemma attrValue_escapeChar:
  "c \<noteq> CHR 0x00 \<Longrightarrow> attrValue (CHR 0x22) r = Some (v, r') \<Longrightarrow>
   attrValue (CHR 0x22) (escapeChar c @ r) = Some (c # v, r')"
  using charRef_entities [of r]
  by (auto simp: attrValue.simps)

lemma attrValue_escapeHtml:
  "CHR 0x00 \<notin> set v \<Longrightarrow>
   attrValue (CHR 0x22) (escapeHtml v @ CHR 0x22 # r) = Some (v, r)"
proof (induction v)
  case Nil
  then show ?case by (simp add: escapeHtml_Nil attrValue.simps)
next
  case (Cons c v)
  then have "c \<noteq> CHR 0x00" "attrValue (CHR 0x22) (escapeHtml v @ CHR 0x22 # r) = Some (v, r)"
    by auto
  then have "attrValue (CHR 0x22) (escapeChar c @ escapeHtml v @ CHR 0x22 # r) = Some (c # v, r)"
    by (rule attrValue_escapeChar)
  then show ?case by (simp add: escapeHtml_Cons del: escapeChar.simps)
qed

lemma scanAttributes_end: "scanAttributes (CHR ''>'' # r) = Some ([], r)"
  by (simp add: scanAttributes.simps isSpace_def)

lemma scanAttributes_ICON:
  "CHR 0x00 \<notin> set v \<Longrightarrow> scanAttributes r = Some (as, r') \<Longrightarrow>
   scanAttributes ('' ICON='' @ CHR 0x22 # escapeHtml v @ CHR 0x22 # r) =
     Some (addAttr (''icon'', v) as, r')"
  by (simp add: scan_defs attrValue_escapeHtml)

lemma scanAttributes_ADD_DATE:
  "CHR 0x00 \<notin> set v \<Longrightarrow> scanAttributes r = Some (as, r') \<Longrightarrow>
   scanAttributes ('' ADD_DATE='' @ CHR 0x22 # escapeHtml v @ CHR 0x22 # r) =
     Some (addAttr (''add_date'', v) as, r')"
  by (simp add: scan_defs attrValue_escapeHtml)

lemma scanAttributes_HREF:
  "CHR 0x00 \<notin> set v \<Longrightarrow> scanAttributes r = Some (as, r') \<Longrightarrow>
   scanAttributes ('' HREF='' @ CHR 0x22 # escapeHtml v @ CHR 0x22 # r) =
     Some (addAttr (''href'', v) as, r')"
  by (simp add: scan_defs attrValue_escapeHtml)

lemma scanAttributes_icon:
  "plainAttr ic \<Longrightarrow>
   scanAttributes (renderAttribute ''ICON'' ic @ CHR ''>'' # r) = Some (domAttribute ''icon'' ic, r)"
  using scanAttributes_ICON [OF _ scanAttributes_end, of _ r]
  by (cases ic) (simp_all add: renderAttribute_def domAttribute_def scanAttributes_end
      plainAttr_def plain_def addAttr_def)

lemma scanAttributes_add_date:
  "plainAttr d \<Longrightarrow> plainAttr ic \<Longrightarrow>
   scanAttributes (renderAttribute ''ADD_DATE'' d @ renderAttribute ''ICON'' ic @ CHR ''>'' # r) =
     Some (domAttribute ''add_date'' d @ domAttribute ''icon'' ic, r)"
  using scanAttributes_ADD_DATE [OF _ scanAttributes_icon, of _ ic r]
  by (cases d) (auto simp: renderAttribute_def [of "''ADD_DATE''"] domAttribute_def
      scanAttributes_icon plainAttr_def plain_def addAttr_def split: option.splits)

lemma scanAttributes_link:
  "plain u \<Longrightarrow> plainAttr d \<Longrightarrow> plainAttr ic \<Longrightarrow>
   scanAttributes ('' HREF='' @ CHR 0x22 # escapeHtml u @ CHR 0x22 #
       renderAttribute ''ADD_DATE'' d @ renderAttribute ''ICON'' ic @ CHR ''>'' # r) =
     Some ((''href'', u) # domAttribute ''add_date'' d @ domAttribute ''icon'' ic, r)"
  using scanAttributes_HREF [OF _ scanAttributes_add_date, of u d ic r]
  by (auto simp: domAttribute_def plain_def addAttr_def split: option.splits)

lemma tokenize_A:
  assumes "plain u" "plainAttr d" "plainAttr ic" "tokenize r = Some ts"
  shows "tokenize (''<A HREF='' @ [CHR 0x22] @ escapeHtml u @ [CHR 0x22] @
       renderAttribute ''ADD_DATE'' d @ renderAttribute ''ICON'' ic @ ''>'' @ r) =
     Some (StartTag ''a'' ((''href'', u) # domAttribute ''add_date'' d @ domAttribute ''icon'' ic) # ts)"
proof -
  have "scanStartTag (''A HREF='' @ CHR 0x22 # escapeHtml u @ CHR 0x22 #
       renderAttribute ''ADD_DATE'' d @ renderAttribute ''ICON'' ic @ CHR ''>'' # r) =
     Some ([StartTag ''a'' ((''href'', u) # domAttribute ''add_date'' d @ domAttribute ''icon'' ic)], r)"
    using scanAttributes_link [OF assms(1-3), of r]
    by (simp add: scanStartTag_def tagNameChar_def isSpace_def lower_def rawTextTags_def)
  then show ?thesis
    using assms(4) by (simp add: tokenize.simps scanTag_def isAlpha_def lower_def)
qed


text \<open>
  The tokens of the text of a hierarchy.
\<close>

fun tokForest :: "nat \<Rightarrow> Item list \<Rightarrow> Token list" where
  "tokForest i [] = []"
| "tokForest i (LinkItem t u d ic # items) =
     map Character (replicate i CHR '' '') @
     [StartTag ''dt'' [],
      StartTag ''a'' ((''href'', u) # domAttribute ''add_date'' d @ domAttribute ''icon'' ic)] @
     map Character t @ [EndTag ''a'', Character (CHR 0x0A)] @ tokForest i items"
| "tokForest i (FolderItem name sub # items) =
     map Character (replicate i CHR '' '') @
     [StartTag ''dt'' [], StartTag ''h3'' []] @ map Character name @
     [EndTag ''h3'', Character (CHR 0x0A)] @
     map Character (replicate i CHR '' '') @
     [StartTag ''dl'' [], StartTag ''p'' [], Character (CHR 0x0A)] @
     tokForest (i + 4) sub @
     map Character (replicate i CHR '' '') @
     [EndTag ''dl'', StartTag ''p'' [], Character (CHR 0x0A)] @ tokForest i items"

lemma tokenize_renderForest:
  "wellFormed items \<Longrightarrow> tokenize r = Some ts \<Longrightarrow>
   tokenize (renderForest i items @ r) = Some (tokForest i items @ ts)"
proof (induction i items arbitrary: r ts rule: tokForest.induct)
  case (1 i)
  then show ?case by simp
next
  case (2 i t u d ic items)
  from "2.prems" have wf: "plain u" "plainAttr d" "plainAttr ic" "wellFormed items" by simp_all
  have "tokenize (renderForest i items @ r) = Some (tokForest i items @ ts)"
    using "2.IH" wf(4) "2.prems"(2) by simp
  then have "tokenize (''</A>'' @ CHR 0x0A # renderForest i items @ r)
      = Some (EndTag ''a'' # Character (CHR 0x0A) # tokForest i items @ ts)"
    by (intro tokenize_A_end tokenize_newline)
  then have "tokenize (escapeHtml t @ ''</A>'' @ CHR 0x0A # renderForest i items @ r)
      = Some (map Character t @ EndTag ''a'' # Character (CHR 0x0A) # tokForest i items @ ts)"
    by (rule tokenize_escapeHtml)
  then have "tokenize (''<A HREF='' @ [CHR 0x22] @ escapeHtml u @ [CHR 0x22] @
       renderAttribute ''ADD_DATE'' d @ renderAttribute ''ICON'' ic @ ''>'' @
       escapeHtml t @ ''</A>'' @ CHR 0x0A # renderForest i items @ r)
      = Some (StartTag ''a'' ((''href'', u) # domAttribute ''add_date'' d @ domAttribute ''icon'' ic) #
          map Character t @ EndTag ''a'' # Character (CHR 0x0A) # tokForest i items @ ts)"
    by (rule tokenize_A [OF wf(1-3)])
  then have "tokenize (''<DT>'' @ ''<A HREF='' @ [CHR 0x22] @ escapeHtml u @ [CHR 0x22] @
       renderAttribute ''ADD_DATE'' d @ renderAttribute ''ICON'' ic @ ''>'' @
       escapeHtml t @ ''</A>'' @ CHR 0x0A # renderForest i items @ r)
      = Some (StartTag ''dt'' [] #
          StartTag ''a'' ((''href'', u) # domAttribute ''add_date'' d @ domAttribute ''icon'' ic) #
          map Character t @ EndTag ''a'' # Character (CHR 0x0A) # tokForest i items @ ts)"
    by (rule tokenize_DT)
  then have "tokenize (replicate i CHR '' '' @ ''<DT>'' @ ''<A HREF='' @ [CHR 0x22] @ escapeHtml u @ [CHR 0x22] @
       renderAttribute ''ADD_DATE'' d @ renderAttribute ''ICON'' ic @ ''>'' @
       escapeHtml t @ ''</A>'' @ CHR 0x0A # renderForest i items @ r)
      = Some (map Character (replicate i CHR '' '') @ StartTag ''dt'' [] #
          StartTag ''a'' ((''href'', u) # domAttribute ''add_date'' d @ domAttribute ''icon'' ic) #
          map Character t @ EndTag ''a'' # Character (CHR 0x0A) # tokForest i items @ ts)"
    by (rule tokenize_spaces)
  then show ?case by simp
next
  case (3 i name sub items)
  from "3.prems" have wf: "wellFormed sub" "wellFormed items" by simp_all
  let ?sp = "replicate i CHR '' ''"
  let ?r1 = "renderForest i items @ r"
  let ?t1 = "tokForest i items @ ts"
  have 1: "tokenize ?r1 = Some ?t1"
    using "3.IH"(2) wf(2) "3.prems"(2) by simp
  let ?r2 = "?sp @ ''</DL>'' @ ''<p>'' @ CHR 0x0A # ?r1"
  let ?t2 = "map Character ?sp @ EndTag ''dl'' # StartTag ''p'' [] # Character (CHR 0x0A) # ?t1"
  have 2: "tokenize ?r2 = Some ?t2"
    by (rule 1 [THEN tokenize_newline, THEN tokenize_p, THEN tokenize_DL_end, THEN tokenize_spaces])
  let ?r3 = "renderForest (i + 4) sub @ ?r2"
  let ?t3 = "tokForest (i + 4) sub @ ?t2"
  have 3: "tokenize ?r3 = Some ?t3"
    using "3.IH"(1) [OF wf(1) 2] .
  let ?r4 = "?sp @ ''<DL>'' @ ''<p>'' @ CHR 0x0A # ?r3"
  let ?t4 = "map Character ?sp @ StartTag ''dl'' [] # StartTag ''p'' [] # Character (CHR 0x0A) # ?t3"
  have 4: "tokenize ?r4 = Some ?t4"
    by (rule 3 [THEN tokenize_newline, THEN tokenize_p, THEN tokenize_DL, THEN tokenize_spaces])
  let ?r5 = "?sp @ ''<DT>'' @ ''<H3>'' @ escapeHtml name @ ''</H3>'' @ CHR 0x0A # ?r4"
  let ?t5 = "map Character ?sp @ StartTag ''dt'' [] # StartTag ''h3'' [] # map Character name @
      EndTag ''h3'' # Character (CHR 0x0A) # ?t4"
  have 5: "tokenize ?r5 = Some ?t5"
    by (rule 4 [THEN tokenize_newline, THEN tokenize_H3_end, THEN tokenize_escapeHtml,
          THEN tokenize_H3, THEN tokenize_DT, THEN tokenize_spaces])
  then show ?case by simp
qed

subsection \<open>The tree built from the tokens\<close>

text \<open>
  The tree construction on a sequence of tokens in the body.
\<close>

fun runBody :: "Frame list \<Rightarrow> Token list \<Rightarrow> Frame list option" where
  "runBody fs [] = Some fs"
| "runBody fs (tok # toks) = (case inBody tok fs of None \<Rightarrow> None | Some fs' \<Rightarrow> runBody fs' toks)"

lemma foldl_step_None: "foldl step None toks = None"
  by (induction toks) (simp_all add: step_def)

lemma foldl_step_InBody:
  "foldl step (Some (InBody, fs)) toks = map_option (Pair InBody) (runBody fs toks)"
  by (induction toks arbitrary: fs) (auto simp: step_def foldl_step_None split: option.splits)

lemma runBody_append:
  "runBody fs a = Some fs' \<Longrightarrow> runBody fs' b = r \<Longrightarrow> runBody fs (a @ b) = r"
  by (induction a arbitrary: fs) (auto split: option.splits)

fun addChars :: "string \<Rightarrow> Frame list \<Rightarrow> Frame list" where
  "addChars [] fs = fs"
| "addChars (c # cs) fs = addChars cs (addChar c fs)"

lemma inBody_Character:
  "c \<noteq> CHR 0x00 \<Longrightarrow> inBody (Character c) fs = Some (addChar c fs)"
  by (simp add: inBody_def inLeaf_def)

lemma runBody_chars:
  "CHR 0x00 \<notin> set w \<Longrightarrow> runBody fs (map Character w) = Some (addChars w fs)"
  by (induction w arbitrary: fs) (auto simp: inBody_Character)

lemma addChars_text:
  "addChars w (Frame t a (TextNode x # ks) # fs) = Frame t a (TextNode (x @ w) # ks) # fs"
  by (induction w arbitrary: x) simp_all

lemma addChars_empty:
  "addChars w (Frame t a [] # fs) = Frame t a (textNodes w) # fs"
  by (cases w) (simp_all add: textNodes_def addChars_text)

lemma replicate_no_nul: "CHR 0x00 \<notin> set (replicate i CHR '' '')"
  by simp

text \<open>
  Between two items the current node is the element that the next \<^verbatim>\<open><DT>\<close> or \<^verbatim>\<open></DL>\<close>
  will close: the \<^verbatim>\<open>p\<close> that begins the list, the \<^verbatim>\<open>dt\<close> of a link, or the \<^verbatim>\<open>p\<close> inside
  the \<^verbatim>\<open>dt\<close> of a folder. Its last child is the text node that takes the following white
  space. \<open>addText\<close> adds white space there and \<open>collapse\<close> is the element these open
  elements become.
\<close>

fun pending :: "Frame list \<Rightarrow> bool" where
  "pending [Frame t a (TextNode x # ks)] = (t = ''p'' \<or> t = ''dt'')"
| "pending [Frame t a (TextNode x # ks), Frame t' a' ks'] = (t = ''p'' \<and> t' = ''dt'')"
| "pending fs = False"

fun addText :: "string \<Rightarrow> Frame list \<Rightarrow> Frame list" where
  "addText w (Frame t a (TextNode x # ks) # fs) = Frame t a (TextNode (x @ w) # ks) # fs"
| "addText w fs = fs"

fun collapse :: "Frame list \<Rightarrow> DomNode" where
  "collapse [f] = closed f"
| "collapse (f # Frame t a ks # fs) = Element t a (rev (closed f # ks))"
| "collapse [] = TextNode []"

lemma pending_cases:
  assumes "pending pend"
  obtains (single) t a x ks where "pend = [Frame t a (TextNode x # ks)]" "t = ''p'' \<or> t = ''dt''"
  | (double) a x ks a' ks' where "pend = [Frame ''p'' a (TextNode x # ks), Frame ''dt'' a' ks']"
  using assms by (cases pend rule: pending.cases) auto

lemma pending_addText: "pending pend \<Longrightarrow> pending (addText w pend)"
  by (erule pending_cases) auto

lemma runBody_pending_chars:
  "pending pend \<Longrightarrow> CHR 0x00 \<notin> set w \<Longrightarrow>
   runBody (pend @ fs) (map Character w) = Some (addText w pend @ fs)"
  by (erule pending_cases) (simp_all add: runBody_chars addChars_text)

lemma inStack_Cons [simp]: "inStack t (f # fs) \<longleftrightarrow> open_tag f = t \<or> inStack t fs"
  by (auto simp: inStack_def)

lemma inStack_Nil [simp]: "\<not> inStack t []"
  by (simp add: inStack_def)

lemma inBody_dt:
  assumes "pending pend" "\<not> inStack ''p'' fs"
  shows "inBody (StartTag ''dt'' []) (pend @ Frame ''dl'' a ks # fs) =
     Some (Frame ''dt'' [] [] # Frame ''dl'' a (collapse pend # ks) # fs)"
  using assms(1)
proof (cases rule: pending_cases)
  case (single t a x ks)
  then show ?thesis
    using assms(2)
    by (auto simp: inBody_def leafOpen_def headings_def closeP_def push_def)
next
  case (double a x ks a' ks')
  then show ?thesis
    using assms(2)
    by (auto simp: inBody_def leafOpen_def headings_def closeP_def push_def)
qed

lemma inBody_dl_end:
  assumes "pending pend" "fs \<noteq> []"
  shows "inBody (EndTag ''dl'') (pend @ Frame ''dl'' a ks # fs) =
     Some (addNode (Element ''dl'' a (rev (collapse pend # ks))) fs)"
  using assms(1)
proof (cases rule: pending_cases)
  case (single t a x ks)
  then show ?thesis
    by (auto simp: inBody_def leafOpen_def headings_def)
next
  case (double a x ks a' ks')
  then show ?thesis
    by (auto simp: inBody_def leafOpen_def headings_def)
qed


lemma runBody_Cons_Some:
  "inBody tok fs = Some fs' \<Longrightarrow> runBody fs' toks = r \<Longrightarrow> runBody fs (tok # toks) = r"
  by simp

lemma inBody_a:
  "open_tag f \<noteq> ''a'' \<Longrightarrow> open_tag f \<notin> set headings \<Longrightarrow>
   inBody (StartTag ''a'' as) (f # fs) = Some (Frame ''a'' as [] # f # fs)"
  by (simp add: inBody_def leafOpen_def push_def headings_def)

lemma inBody_a_end:
  "inBody (EndTag ''a'') (Frame ''a'' as ks # fs) = Some (addNode (Element ''a'' as (rev ks)) fs)"
  by (simp add: inBody_def leafOpen_def inLeaf_def)

lemma inBody_h3:
  "open_tag f \<noteq> ''a'' \<Longrightarrow> open_tag f \<notin> set headings \<Longrightarrow> \<not> inStack ''p'' (f # fs) \<Longrightarrow>
   inBody (StartTag ''h3'' []) (f # fs) = Some (Frame ''h3'' [] [] # f # fs)"
  by (simp add: inBody_def leafOpen_def push_def headings_def closeP_def)

lemma inBody_h3_end:
  "inBody (EndTag ''h3'') (Frame ''h3'' as ks # fs) = Some (addNode (Element ''h3'' as (rev ks)) fs)"
  by (simp add: inBody_def leafOpen_def inLeaf_def headings_def)

lemma inBody_block:
  "t = ''dl'' \<or> t = ''p'' \<Longrightarrow>
   open_tag f \<noteq> ''a'' \<Longrightarrow> open_tag f \<notin> set headings \<Longrightarrow> \<not> inStack ''p'' (f # fs) \<Longrightarrow>
   inBody (StartTag t []) (f # fs) = Some (Frame t [] [] # f # fs)"
  by (auto simp: inBody_def leafOpen_def push_def headings_def closeP_def)

lemma rev_textNodes [simp]: "rev (textNodes s) = textNodes s"
  by (simp add: textNodes_def)

lemma collapse_link:
  "collapse (addText x [Frame ''dt'' [] [TextNode [CHR 0x0A], e]]) =
     Element ''dt'' [] [e, TextNode (CHR 0x0A # x)]"
  by simp

lemma collapse_folder:
  "collapse (addText x [Frame ''p'' [] [TextNode [CHR 0x0A]], Frame ''dt'' [] [e3, e2, e1]]) =
     Element ''dt'' [] [e1, e2, e3, Element ''p'' [] [TextNode (CHR 0x0A # x)]]"
  by simp

lemma collapse_first:
  "collapse (addText x [Frame ''p'' [] [TextNode [CHR 0x0A]]]) =
     Element ''p'' [] [TextNode (CHR 0x0A # x)]"
  by simp

lemma runBody_items:
  "wellFormed items \<Longrightarrow> pending pend \<Longrightarrow> \<not> inStack ''p'' fs \<Longrightarrow> fs \<noteq> [] \<Longrightarrow>
   CHR 0x00 \<notin> set w \<Longrightarrow>
   runBody (pend @ Frame ''dl'' a ks # fs) (tokForest i items @ map Character w @ [EndTag ''dl'']) =
     Some (addNode
        (Element ''dl'' a
           (rev ks @ collapse (addText (if items = [] then w else replicate i CHR '' '') pend)
            # domItems i w items)) fs)"
proof (induction i items arbitrary: pend a ks fs w rule: tokForest.induct)
  case (1 i)
  have "runBody (pend @ Frame ''dl'' a ks # fs) (map Character w) =
      Some (addText w pend @ Frame ''dl'' a ks # fs)"
    using "1.prems"(2,5) by (rule runBody_pending_chars)
  moreover have "runBody (addText w pend @ Frame ''dl'' a ks # fs) [EndTag ''dl''] =
      Some (addNode (Element ''dl'' a (rev (collapse (addText w pend) # ks))) fs)"
    using inBody_dl_end [OF pending_addText [OF "1.prems"(2)] "1.prems"(4)] by simp
  ultimately have "runBody (pend @ Frame ''dl'' a ks # fs) (map Character w @ [EndTag ''dl'']) =
      Some (addNode (Element ''dl'' a (rev (collapse (addText w pend) # ks))) fs)"
    by (rule runBody_append)
  then show ?case by simp
next
  case (2 i t u d ic items)
  from "2.prems"(1) have wf: "plain t" "wellFormed items" by simp_all
  then have nul: "CHR 0x00 \<notin> set t" by (simp add: plain_def)
  let ?sp = "replicate i CHR '' ''"
  let ?as = "(''href'', u) # domAttribute ''add_date'' d @ domAttribute ''icon'' ic"
  let ?pend1 = "addText ?sp pend"
  let ?D = "Frame ''dl'' a (collapse ?pend1 # ks) # fs"
  let ?rest = "tokForest i items @ map Character w @ [EndTag ''dl'']"
  let ?pend2 = "[Frame ''dt'' [] [TextNode [CHR 0x0A], linkElement t u d ic]]"
  have p1: "pending ?pend1" using "2.prems"(2) by (rule pending_addText)
  have s1: "runBody (pend @ Frame ''dl'' a ks # fs) (map Character ?sp) =
      Some (?pend1 @ Frame ''dl'' a ks # fs)"
    using "2.prems"(2) replicate_no_nul by (rule runBody_pending_chars)
  have s2: "inBody (StartTag ''dt'' []) (?pend1 @ Frame ''dl'' a ks # fs) = Some (Frame ''dt'' [] [] # ?D)"
    using p1 "2.prems"(3) by (rule inBody_dt)
  have s3: "inBody (StartTag ''a'' ?as) (Frame ''dt'' [] [] # ?D) = Some (Frame ''a'' ?as [] # Frame ''dt'' [] [] # ?D)"
    by (rule inBody_a) (simp_all add: headings_def)
  have s4: "runBody (Frame ''a'' ?as [] # Frame ''dt'' [] [] # ?D) (map Character t) =
      Some (Frame ''a'' ?as (textNodes t) # Frame ''dt'' [] [] # ?D)"
    using nul by (simp add: runBody_chars addChars_empty)
  have s5: "inBody (EndTag ''a'') (Frame ''a'' ?as (textNodes t) # Frame ''dt'' [] [] # ?D) =
      Some (Frame ''dt'' [] [linkElement t u d ic] # ?D)"
    by (simp add: inBody_a_end linkElement_def)
  have s6: "inBody (Character (CHR 0x0A)) (Frame ''dt'' [] [linkElement t u d ic] # ?D) =
      Some (?pend2 @ ?D)"
    by (simp add: inBody_Character linkElement_def)
  have s7: "runBody (?pend2 @ ?D) ?rest =
      Some (addNode
        (Element ''dl'' a
           (rev (collapse ?pend1 # ks) @ collapse (addText (if items = [] then w else ?sp) ?pend2)
            # domItems i w items)) fs)"
    by (rule "2.IH" [OF wf(2) _ "2.prems"(3,4,5)]) simp
  have "runBody (pend @ Frame ''dl'' a ks # fs)
      (map Character ?sp @ StartTag ''dt'' [] # StartTag ''a'' ?as # map Character t @
        EndTag ''a'' # Character (CHR 0x0A) # ?rest) =
      Some (addNode
        (Element ''dl'' a
           (rev (collapse ?pend1 # ks) @ collapse (addText (if items = [] then w else ?sp) ?pend2)
            # domItems i w items)) fs)"
    by (rule runBody_append [OF s1] runBody_Cons_Some [OF s2] runBody_Cons_Some [OF s3]
        runBody_append [OF s4] runBody_Cons_Some [OF s5] runBody_Cons_Some [OF s6] s7)+
  then show ?case
    unfolding collapse_link by simp
next
  case (3 i name sub items)
  from "3.prems"(1) have wf: "plain name" "wellFormed sub" "wellFormed items" by simp_all
  then have nul: "CHR 0x00 \<notin> set name" by (simp add: plain_def)
  let ?sp = "replicate i CHR '' ''"
  let ?pend1 = "addText ?sp pend"
  let ?D = "Frame ''dl'' a (collapse ?pend1 # ks) # fs"
  let ?rest = "tokForest i items @ map Character w @ [EndTag ''dl'']"
  let ?h3 = "Element ''h3'' [] (textNodes name)"
  let ?tx = "TextNode (CHR 0x0A # ?sp)"
  let ?dt = "Frame ''dt'' [] [?tx, ?h3]"
  let ?first = "[Frame ''p'' [] [TextNode [CHR 0x0A]]]"
  let ?dl = "Element ''dl'' []
          (Element ''p'' [] [TextNode (CHR 0x0A # (if sub = [] then ?sp else replicate (i + 4) CHR '' ''))]
           # domItems (i + 4) ?sp sub)"
  let ?pend2 = "[Frame ''p'' [] [TextNode [CHR 0x0A]], Frame ''dt'' [] [?dl, ?tx, ?h3]]"
  have nop: "\<not> inStack ''p'' ?D" using "3.prems"(3) by simp
  have p1: "pending ?pend1" using "3.prems"(2) by (rule pending_addText)
  have s1: "runBody (pend @ Frame ''dl'' a ks # fs) (map Character ?sp) =
      Some (?pend1 @ Frame ''dl'' a ks # fs)"
    using "3.prems"(2) replicate_no_nul by (rule runBody_pending_chars)
  have s2: "inBody (StartTag ''dt'' []) (?pend1 @ Frame ''dl'' a ks # fs) = Some (Frame ''dt'' [] [] # ?D)"
    using p1 "3.prems"(3) by (rule inBody_dt)
  have s3: "inBody (StartTag ''h3'' []) (Frame ''dt'' [] [] # ?D) =
      Some (Frame ''h3'' [] [] # Frame ''dt'' [] [] # ?D)"
    using nop by (intro inBody_h3) (simp_all add: headings_def)
  have s4: "runBody (Frame ''h3'' [] [] # Frame ''dt'' [] [] # ?D) (map Character name) =
      Some (Frame ''h3'' [] (textNodes name) # Frame ''dt'' [] [] # ?D)"
    using nul by (simp add: runBody_chars addChars_empty)
  have s5: "inBody (EndTag ''h3'') (Frame ''h3'' [] (textNodes name) # Frame ''dt'' [] [] # ?D) =
      Some (Frame ''dt'' [] [?h3] # ?D)"
    by (simp add: inBody_h3_end)
  have s6: "inBody (Character (CHR 0x0A)) (Frame ''dt'' [] [?h3] # ?D) =
      Some (Frame ''dt'' [] [TextNode [CHR 0x0A], ?h3] # ?D)"
    by (simp add: inBody_Character)
  have s7: "runBody (Frame ''dt'' [] [TextNode [CHR 0x0A], ?h3] # ?D) (map Character ?sp) =
      Some (?dt # ?D)"
    unfolding runBody_chars [OF replicate_no_nul] addChars_text by simp
  have s8: "inBody (StartTag ''dl'' []) (?dt # ?D) = Some (Frame ''dl'' [] [] # ?dt # ?D)"
    using nop by (intro inBody_block) (simp_all add: headings_def)
  have s9: "inBody (StartTag ''p'' []) (Frame ''dl'' [] [] # ?dt # ?D) =
      Some (Frame ''p'' [] [] # Frame ''dl'' [] [] # ?dt # ?D)"
    using nop by (intro inBody_block) (simp_all add: headings_def)
  have s10: "inBody (Character (CHR 0x0A)) (Frame ''p'' [] [] # Frame ''dl'' [] [] # ?dt # ?D) =
      Some (?first @ Frame ''dl'' [] [] # ?dt # ?D)"
    by (simp add: inBody_Character)
  have s11: "runBody (?first @ Frame ''dl'' [] [] # ?dt # ?D)
        (tokForest (i + 4) sub @ map Character ?sp @ [EndTag ''dl'']) =
      Some (addNode
        (Element ''dl'' []
           (rev [] @ collapse (addText (if sub = [] then ?sp else replicate (i + 4) CHR '' '') ?first)
            # domItems (i + 4) ?sp sub)) (?dt # ?D))"
    using nop by (intro "3.IH"(1) [OF wf(2)]) simp_all
  have s11': "runBody (?first @ Frame ''dl'' [] [] # ?dt # ?D)
        (tokForest (i + 4) sub @ map Character ?sp @ [EndTag ''dl'']) =
      Some (Frame ''dt'' [] [?dl, ?tx, ?h3] # ?D)"
    unfolding s11 collapse_first by simp
  have s12: "inBody (StartTag ''p'' []) (Frame ''dt'' [] [?dl, ?tx, ?h3] # ?D) =
      Some (Frame ''p'' [] [] # Frame ''dt'' [] [?dl, ?tx, ?h3] # ?D)"
    using nop by (intro inBody_block) (simp_all add: headings_def)
  have s13: "inBody (Character (CHR 0x0A)) (Frame ''p'' [] [] # Frame ''dt'' [] [?dl, ?tx, ?h3] # ?D) =
      Some (?pend2 @ ?D)"
    by (simp add: inBody_Character)
  have s14: "runBody (?pend2 @ ?D) ?rest =
      Some (addNode
        (Element ''dl'' a
           (rev (collapse ?pend1 # ks) @ collapse (addText (if items = [] then w else ?sp) ?pend2)
            # domItems i w items)) fs)"
    by (rule "3.IH"(2) [OF wf(3) _ "3.prems"(3,4,5)]) simp
  have "runBody (pend @ Frame ''dl'' a ks # fs)
      (map Character ?sp @ StartTag ''dt'' [] # StartTag ''h3'' [] # map Character name @
        EndTag ''h3'' # Character (CHR 0x0A) # map Character ?sp @
        StartTag ''dl'' [] # StartTag ''p'' [] # Character (CHR 0x0A) #
        (tokForest (i + 4) sub @ map Character ?sp @ [EndTag ''dl'']) @
        StartTag ''p'' [] # Character (CHR 0x0A) # ?rest) =
      Some (addNode
        (Element ''dl'' a
           (rev (collapse ?pend1 # ks) @ collapse (addText (if items = [] then w else ?sp) ?pend2)
            # domItems i w items)) fs)"
    by (rule runBody_append [OF s1] runBody_Cons_Some [OF s2] runBody_Cons_Some [OF s3]
        runBody_append [OF s4] runBody_Cons_Some [OF s5] runBody_Cons_Some [OF s6]
        runBody_append [OF s7] runBody_Cons_Some [OF s8] runBody_Cons_Some [OF s9]
        runBody_Cons_Some [OF s10] runBody_append [OF s11'] runBody_Cons_Some [OF s12]
        runBody_Cons_Some [OF s13] s14)+
  then show ?case
    unfolding collapse_folder by simp
qed

lemma normalizeNewlines_plain: "CHR 0x0D \<notin> set s \<Longrightarrow> normalizeNewlines s = s"
  by (induction s rule: normalizeNewlines.induct) auto

lemma escapeHtml_no_cr: "CHR 0x0D \<notin> set s \<Longrightarrow> CHR 0x0D \<notin> set (escapeHtml s)"
  by (induction s) (auto simp: escapeHtml_Nil escapeHtml_Cons)

lemma renderAttribute_no_cr:
  "plainAttr v \<Longrightarrow> CHR 0x0D \<notin> set name \<Longrightarrow> CHR 0x0D \<notin> set (renderAttribute name v)"
  by (cases v) (auto simp: renderAttribute_def plainAttr_def plain_def escapeHtml_no_cr)

lemma renderForest_no_cr:
  "wellFormed items \<Longrightarrow> CHR 0x0D \<notin> set (renderForest i items)"
proof (induction i items rule: renderForest.induct)
  case (1 i)
  then show ?case by simp
next
  case (2 i t u d ic items)
  then have "CHR 0x0D \<notin> set (escapeHtml t)" "CHR 0x0D \<notin> set (escapeHtml u)"
    "CHR 0x0D \<notin> set (renderAttribute ''ADD_DATE'' d)" "CHR 0x0D \<notin> set (renderAttribute ''ICON'' ic)"
    "CHR 0x0D \<notin> set (renderForest i items)"
    by (simp_all add: plain_def escapeHtml_no_cr renderAttribute_no_cr)
  then show ?case by simp
next
  case (3 i name sub items)
  then have "CHR 0x0D \<notin> set (escapeHtml name)" "CHR 0x0D \<notin> set (renderForest (i + 4) sub)"
    "CHR 0x0D \<notin> set (renderForest i items)"
    by (simp_all add: plain_def escapeHtml_no_cr)
  then show ?case by simp
qed

text \<open>
  The tokens of the fixed header, and the open elements after them.
\<close>

definition headerTokens :: "Token list" where
  "headerTokens =
     [Character (CHR 0x0A), Character (CHR 0x0A),
      StartTag ''meta'' [(''http-equiv'', ''Content-Type''), (''content'', ''text/html; charset=UTF-8'')],
      Character (CHR 0x0A), StartTag ''title'' []] @ map Character ''Bookmarks'' @
     [EndTag ''title'', Character (CHR 0x0A), StartTag ''h1'' []] @ map Character ''Bookmarks'' @
     [EndTag ''h1'', Character (CHR 0x0A), StartTag ''dl'' [], StartTag ''p'' [], Character (CHR 0x0A)]"

lemma tokenize_htmlHeader:
  "tokenize r = Some ts \<Longrightarrow> tokenize (htmlHeader @ r) = Some (headerTokens @ ts)"
  by (simp add: htmlHeader_def headerTokens_def scan_defs skipComment_def scanTitle_def
      attrValue.simps addAttr_def)

lemma tokenize_htmlFooter:
  "tokenize htmlFooter = Some [EndTag ''dl'', StartTag ''p'' []]"
  by (simp add: htmlFooter_def scan_defs)


definition headElement :: DomNode where
  "headElement =
     Element ''head'' []
       [Element ''meta'' [(''http-equiv'', ''Content-Type''), (''content'', ''text/html; charset=UTF-8'')] [],
        TextNode [CHR 0x0A],
        Element ''title'' [] [TextNode ''Bookmarks''],
        TextNode [CHR 0x0A]]"

definition bodyFrames :: "Frame list" where
  "bodyFrames =
     [Frame ''body'' [] [TextNode [CHR 0x0A], Element ''h1'' [] [TextNode ''Bookmarks'']],
      Frame ''html'' [] [headElement]]"

lemma step_headerTokens:
  "foldl step (Some (BeforeHead, [])) headerTokens =
     Some (InBody, [Frame ''p'' [] [TextNode [CHR 0x0A]]] @ Frame ''dl'' [] [] # bodyFrames)"
  by (simp add: headerTokens_def step_def beforeHead_def inHead_def inTitle_def afterHead_def
      inBody_def inLeaf_def leafOpen_def headings_def push_def closeP_def isSpace_def
      ignoredEndTag_def bodyFrames_def headElement_def)

lemma parseHtml_export:
  assumes "wellFormed items"
  shows "parseHtml (htmlHeader @ renderForest 4 items @ htmlFooter) = Some (document items)"
proof -
  let ?out = "htmlHeader @ renderForest 4 items @ htmlFooter"
  have "CHR 0x0D \<notin> set htmlHeader" "CHR 0x0D \<notin> set htmlFooter"
    by (simp_all add: htmlHeader_def htmlFooter_def)
  then have "CHR 0x0D \<notin> set ?out"
    using renderForest_no_cr [OF assms, of 4] by simp
  then have norm: "normalizeNewlines ?out = ?out" by (rule normalizeNewlines_plain)
  have "tokenize (renderForest 4 items @ htmlFooter) =
      Some (tokForest 4 items @ [EndTag ''dl'', StartTag ''p'' []])"
    using assms tokenize_htmlFooter by (rule tokenize_renderForest)
  then have toks: "tokenize ?out =
      Some (headerTokens @ (tokForest 4 items @ map Character [] @ [EndTag ''dl'']) @ [StartTag ''p'' []])"
    using tokenize_htmlHeader [of "renderForest 4 items @ htmlFooter"] by simp
  have items: "runBody ([Frame ''p'' [] [TextNode [CHR 0x0A]]] @ Frame ''dl'' [] [] # bodyFrames)
       (tokForest 4 items @ map Character [] @ [EndTag ''dl'']) =
     Some (addNode
        (Element ''dl'' []
           (rev [] @ collapse (addText (if items = [] then [] else replicate 4 CHR '' '')
                [Frame ''p'' [] [TextNode [CHR 0x0A]]])
            # domItems 4 [] items)) bodyFrames)"
    by (rule runBody_items [OF assms]) (simp_all add: bodyFrames_def)
  have dl: "addNode
        (Element ''dl'' []
           (rev [] @ collapse (addText (if items = [] then [] else replicate 4 CHR '' '')
                [Frame ''p'' [] [TextNode [CHR 0x0A]]])
            # domItems 4 [] items)) bodyFrames =
      Frame ''body'' [] [domList 4 [] items, TextNode [CHR 0x0A], Element ''h1'' [] [TextNode ''Bookmarks'']]
      # [Frame ''html'' [] [headElement]]"
    unfolding collapse_first by (simp add: bodyFrames_def domList_def)
  have run: "foldl step (Some (BeforeHead, []))
       (headerTokens @ (tokForest 4 items @ map Character [] @ [EndTag ''dl'']) @ [StartTag ''p'' []]) =
     Some (InBody,
       [Frame ''p'' [] [],
        Frame ''body'' [] [domList 4 [] items, TextNode [CHR 0x0A], Element ''h1'' [] [TextNode ''Bookmarks'']],
        Frame ''html'' [] [headElement]])"
  proof -
    define X where "X = tokForest 4 items @ map Character [] @ [EndTag ''dl'']"
    have x: "runBody ([Frame ''p'' [] [TextNode [CHR 0x0A]]] @ Frame ''dl'' [] [] # bodyFrames) X =
        Some (Frame ''body'' [] [domList 4 [] items, TextNode [CHR 0x0A], Element ''h1'' [] [TextNode ''Bookmarks'']]
          # [Frame ''html'' [] [headElement]])"
      unfolding X_def items dl by (rule refl)
    have "foldl step (Some (BeforeHead, [])) (headerTokens @ X @ [StartTag ''p'' []]) =
     Some (InBody,
       [Frame ''p'' [] [],
        Frame ''body'' [] [domList 4 [] items, TextNode [CHR 0x0A], Element ''h1'' [] [TextNode ''Bookmarks'']],
        Frame ''html'' [] [headElement]])"
      unfolding foldl_append step_headerTokens foldl_step_InBody x
      by (simp add: step_def inBody_def leafOpen_def headings_def closeP_def push_def)
    then show ?thesis unfolding X_def .
  qed
  show ?thesis
    unfolding parseHtml_def norm toks option.case run
    by (simp add: endOfFile_def document_def headElement_def)
qed

subsection \<open>The round trip\<close>

lemma length_flatLinks: "length (flatLinks rnd k cur items) = linkCount items"
  by (induction rnd k cur items rule: flatLinks.induct) simp_all

lemma length_flat:
  "length (flatFolders rnd k cur items) + length (flatBookmarks rnd k cur items) = weight items"
  by (induction rnd k cur items rule: flatFolders.induct) (simp_all add: length_flatLinks)

lemma forest_total:
  assumes "distinct (map f_id (folders library))"
  shows "\<exists>items. forest (Suc (length (folders library))) library None = Some items"
  using exportToHTML_total [OF assms] by (auto simp: exportToHTML_forest)

text \<open>
  Claim C1, amended. Let \<open>items\<close> be the hierarchy of a library that is reachable from
  the root (the folders without parent, the folders below them by \<open>parentId\<close>, and the
  bookmarks whose \<open>folder\<close> is absent or one of these folders), found within \<open>n\<close>
  nested calls; let no folder name or title in it be empty, no text in it hold a carriage
  return or a NUL, no date or icon in it be the empty string, and let the identifiers
  drawn by the parser be pairwise distinct. Then \<open>exportToHTML\<close> returns a text, the
  HTML parser of the model builds \<open>document items\<close> from it, and for every parser that
  returns this document \<open>parseBookmarksHTML\<close> returns a library with the same hierarchy:
  the same folders with the same names and nesting and, in each of them, the same
  bookmarks with their url, title, date and icon, the folders of a level before its
  bookmarks; and this library holds nothing else, it has as many folders and bookmarks
  as the hierarchy has items. Lemma \<open>forest_total\<close> gives the hierarchy for every
  library whose folder ids are distinct, with \<open>n\<close> one more than the number of folders.
\<close>

theorem parseBookmarksHTML_exportToHTML:
  assumes fresh: "inj rnd"
    and hierarchy: "forest n library None = Some items"
    and texts: "wellFormed items"
  shows "\<exists>out. exportToHTML n library = Some out \<and>
           parseHtml out = Some (document items) \<and>
           (\<forall>parseFromString. parseFromString out = document items \<longrightarrow>
              forest n (parseBookmarksHTML rnd parseFromString out) None = Some items \<and>
              length (folders (parseBookmarksHTML rnd parseFromString out)) +
                length (bookmarks (parseBookmarksHTML rnd parseFromString out)) =
                linkCount items + weight items)"
proof -
  let ?out = "htmlHeader @ renderForest 4 items @ htmlFooter"
  have out: "exportToHTML n library = Some ?out"
    using hierarchy by (simp add: exportToHTML_forest)
  have doc: "parseHtml ?out = Some (document items)"
    using texts by (rule parseHtml_export)
  obtain n' where n: "n = Suc n'" "depth items \<le> n'"
    using forest_depth [OF hierarchy] by (cases n) simp_all
  have ord: "ordered items" using hierarchy by (rule forest_ordered)
  have "forest n (parseBookmarksHTML rnd pf ?out) None = Some items \<and>
        length (folders (parseBookmarksHTML rnd pf ?out)) +
          length (bookmarks (parseBookmarksHTML rnd pf ?out)) = linkCount items + weight items"
    if pf: "pf ?out = document items" for pf
  proof -
    have p: "parseBookmarksHTML rnd pf ?out =
       \<lparr>bookmarks = flatLinks rnd 0 None items @ flatBookmarks rnd (linkCount items) None items,
        folders = flatFolders rnd (linkCount items) None items\<rparr>"
      using texts pf by (rule parseBookmarksHTML_document)
    show ?thesis
      unfolding p n(1)
      using forest_flat [OF fresh ord n(2)] length_flat [of rnd "linkCount items" None items]
      by (simp add: length_flatLinks)
  qed
  with out doc show ?thesis by blast
qed


text \<open>
  The parse of an export whose hierarchy is well formed, in closed form, for the
  examples.
\<close>

lemma inj_exampleIds: "inj exampleIds"
  by (auto simp: inj_def exampleIds_def)

lemma parse_export_value:
  assumes "forest n library None = Some items" "wellFormed items"
  shows "parseBookmarksHTML rnd modelParser (the (exportToHTML n library)) =
     \<lparr>bookmarks = flatLinks rnd 0 None items @ flatBookmarks rnd (linkCount items) None items,
      folders = flatFolders rnd (linkCount items) None items\<rparr>"
proof -
  have "exportToHTML n library = Some (htmlHeader @ renderForest 4 items @ htmlFooter)"
    using assms(1) by (simp add: exportToHTML_forest)
  moreover have "modelParser (htmlHeader @ renderForest 4 items @ htmlFooter) = document items"
    using parseHtml_export [OF assms(2)] by (simp add: modelParser_def)
  ultimately show ?thesis
    using parseBookmarksHTML_document [OF assms(2), of modelParser] by simp
qed

lemma parseBookmarksHTML_same_document:
  "parseFromString a = parseFromString b \<Longrightarrow>
   parseBookmarksHTML rnd parseFromString a = parseBookmarksHTML rnd parseFromString b"
  by (simp add: parseBookmarksHTML_def)

lemma modelParser_normalized:
  "normalizeNewlines a = normalizeNewlines b \<Longrightarrow> modelParser a = modelParser b"
  by (simp add: modelParser_def parseHtml_def)

text \<open>
  A library with a folder inside a folder, a bookmark in a folder and one at the root,
  with characters that the export escapes; and its hierarchy.
\<close>

definition exampleLibrary :: BookmarkLibrary where
  "exampleLibrary =
     \<lparr>bookmarks =
        [\<lparr>b_id = ''b1'', title = ''Tom & Jerry <test>'', url = ''http://x.com/?a=1&b=2'',
          addDate = Some ''1700000000'', icon = None, tags = None, folder = Some ''f1''\<rparr>,
         \<lparr>b_id = ''b2'', title = ''Root page'', url = ''http://r.org'',
          addDate = None, icon = Some ''data:image/png;base64,AA=='', tags = None, folder = None\<rparr>],
      folders =
        [\<lparr>f_id = ''f1'', f_name = ''Dev'', parentId = None\<rparr>,
         \<lparr>f_id = ''f2'', f_name = ''Q&A'', parentId = Some ''f1''\<rparr>]\<rparr>"

definition exampleItems :: "Item list" where
  "exampleItems =
     [FolderItem ''Dev''
        [FolderItem ''Q&A'' [],
         LinkItem ''Tom & Jerry <test>'' ''http://x.com/?a=1&b=2'' (Some ''1700000000'') None],
      LinkItem ''Root page'' ''http://r.org'' None (Some ''data:image/png;base64,AA=='')]"

theorem parseBookmarksHTML_exportToHTML_witness:
  "inj exampleIds \<and>
   forest 3 exampleLibrary None = Some exampleItems \<and>
   wellFormed exampleItems \<and>
   forest 3 (parseBookmarksHTML exampleIds modelParser (the (exportToHTML 3 exampleLibrary))) None
     = Some exampleItems \<and>
   parseBookmarksHTML exampleIds modelParser (the (exportToHTML 3 exampleLibrary)) =
     \<lparr>bookmarks =
        [\<lparr>b_id = ''x'', title = ''Root page'', url = ''http://r.org'',
          addDate = None, icon = Some ''data:image/png;base64,AA=='', tags = None, folder = None\<rparr>,
         \<lparr>b_id = ''xxx'', title = ''Tom & Jerry <test>'', url = ''http://x.com/?a=1&b=2'',
          addDate = Some ''1700000000'', icon = None, tags = None, folder = Some ''xx''\<rparr>],
      folders =
        [\<lparr>f_id = ''xx'', f_name = ''Dev'', parentId = None\<rparr>,
         \<lparr>f_id = ''xxxx'', f_name = ''Q&A'', parentId = Some ''xx''\<rparr>]\<rparr>"
proof -
  have f: "forest 3 exampleLibrary None = Some exampleItems"
    by (simp add: exampleLibrary_def exampleItems_def eval_nat_numeral linkOf_def)
  have w: "wellFormed exampleItems"
    by (simp add: exampleItems_def plain_def plainAttr_def)
  from parseBookmarksHTML_exportToHTML [OF inj_exampleIds f w]
  obtain out where out: "exportToHTML 3 exampleLibrary = Some out"
    and doc: "parseHtml out = Some (document exampleItems)"
    and all: "\<And>parseFromString. parseFromString out = document exampleItems \<Longrightarrow>
              forest 3 (parseBookmarksHTML exampleIds parseFromString out) None = Some exampleItems"
    by blast
  have "modelParser out = document exampleItems"
    using doc by (simp add: modelParser_def)
  then have r: "forest 3 (parseBookmarksHTML exampleIds modelParser (the (exportToHTML 3 exampleLibrary))) None
     = Some exampleItems"
    using all out by simp
  have v: "parseBookmarksHTML exampleIds modelParser (the (exportToHTML 3 exampleLibrary)) =
     \<lparr>bookmarks =
        [\<lparr>b_id = ''x'', title = ''Root page'', url = ''http://r.org'',
          addDate = None, icon = Some ''data:image/png;base64,AA=='', tags = None, folder = None\<rparr>,
         \<lparr>b_id = ''xxx'', title = ''Tom & Jerry <test>'', url = ''http://x.com/?a=1&b=2'',
          addDate = Some ''1700000000'', icon = None, tags = None, folder = Some ''xx''\<rparr>],
      folders =
        [\<lparr>f_id = ''xx'', f_name = ''Dev'', parentId = None\<rparr>,
         \<lparr>f_id = ''xxxx'', f_name = ''Q&A'', parentId = Some ''xx''\<rparr>]\<rparr>"
    unfolding parse_export_value [OF f w]
    by (simp add: exampleItems_def exampleIds_def)
  show ?thesis using inj_exampleIds f w r v by simp
qed

text \<open>
  The claim as written speaks of every library without duplicate sibling names and
  without empty names or titles. Four such libraries that the round trip does not give
  back: a bookmark whose \<open>folder\<close> names no folder of the library is not written, so
  the parse has one bookmark where the library has two; an empty \<open>addDate\<close> is not
  written, so the parse has none; a carriage return in a title comes back as a line
  feed; and a NUL in a title does not come back. The last part is the parse of a library
  of two folders when the parser draws the same identifier every time: each folder is
  then the folder of both bookmarks.
\<close>

definition sameId :: "nat \<Rightarrow> string" where
  "sameId n = ''id''"


theorem parseBookmarksHTML_exportToHTML_counterexample:
  "parseBookmarksHTML exampleIds modelParser
     (the (exportToHTML 2
        \<lparr>bookmarks =
           [\<lparr>b_id = ''b1'', title = ''A'', url = ''http://a'', addDate = None, icon = None,
             tags = None, folder = Some ''f1''\<rparr>,
            \<lparr>b_id = ''b2'', title = ''B'', url = ''http://b'', addDate = None, icon = None,
             tags = None, folder = Some ''gone''\<rparr>],
         folders = [\<lparr>f_id = ''f1'', f_name = ''Dev'', parentId = None\<rparr>]\<rparr>))
   = \<lparr>bookmarks =
        [\<lparr>b_id = ''xx'', title = ''A'', url = ''http://a'', addDate = None, icon = None,
          tags = None, folder = Some ''x''\<rparr>],
      folders = [\<lparr>f_id = ''x'', f_name = ''Dev'', parentId = None\<rparr>]\<rparr> \<and>
   parseBookmarksHTML exampleIds modelParser
     (the (exportToHTML 1
        \<lparr>bookmarks =
           [\<lparr>b_id = ''b1'', title = ''A'', url = ''http://a'', addDate = Some [], icon = None,
             tags = None, folder = None\<rparr>],
         folders = []\<rparr>))
   = \<lparr>bookmarks =
        [\<lparr>b_id = ''x'', title = ''A'', url = ''http://a'', addDate = None, icon = None,
          tags = None, folder = None\<rparr>],
      folders = []\<rparr> \<and>
   parseBookmarksHTML exampleIds modelParser
     (the (exportToHTML 1
        \<lparr>bookmarks =
           [\<lparr>b_id = ''b1'', title = [CHR ''a'', CHR 0x0D, CHR ''b''], url = ''http://a'',
             addDate = None, icon = None, tags = None, folder = None\<rparr>],
         folders = []\<rparr>))
   = \<lparr>bookmarks =
        [\<lparr>b_id = ''x'', title = [CHR ''a'', CHR 0x0A, CHR ''b''], url = ''http://a'',
          addDate = None, icon = None, tags = None, folder = None\<rparr>],
      folders = []\<rparr> \<and>
   parseBookmarksHTML exampleIds modelParser
     (the (exportToHTML 1
        \<lparr>bookmarks =
           [\<lparr>b_id = ''b1'', title = [CHR ''a'', CHR 0x00, CHR ''b''], url = ''http://a'',
             addDate = None, icon = None, tags = None, folder = None\<rparr>],
         folders = []\<rparr>))
   = \<lparr>bookmarks =
        [\<lparr>b_id = ''x'', title = ''ab'', url = ''http://a'',
          addDate = None, icon = None, tags = None, folder = None\<rparr>],
      folders = []\<rparr> \<and>
   forest 2
     (parseBookmarksHTML sameId modelParser
        (the (exportToHTML 2
           \<lparr>bookmarks =
              [\<lparr>b_id = ''b1'', title = ''A'', url = ''http://a'', addDate = None, icon = None,
                tags = None, folder = Some ''f1''\<rparr>,
               \<lparr>b_id = ''b2'', title = ''B'', url = ''http://b'', addDate = None, icon = None,
                tags = None, folder = Some ''f2''\<rparr>],
            folders = [\<lparr>f_id = ''f1'', f_name = ''Dev'', parentId = None\<rparr>,
                       \<lparr>f_id = ''f2'', f_name = ''Ops'', parentId = None\<rparr>]\<rparr>))) None
   = Some [FolderItem ''Dev'' [LinkItem ''A'' ''http://a'' None None, LinkItem ''B'' ''http://b'' None None],
           FolderItem ''Ops'' [LinkItem ''A'' ''http://a'' None None, LinkItem ''B'' ''http://b'' None None]]"
proof -
  let ?A = "\<lparr>b_id = ''b1'', title = ''A'', url = ''http://a'', addDate = None, icon = None,
             tags = None, folder = Some ''f1''\<rparr>"
  let ?B = "\<lparr>b_id = ''b2'', title = ''B'', url = ''http://b'', addDate = None, icon = None,
             tags = None, folder = Some ''gone''\<rparr>"
  let ?L1 = "\<lparr>bookmarks = [?A, ?B], folders = [\<lparr>f_id = ''f1'', f_name = ''Dev'', parentId = None\<rparr>]\<rparr>"
  have f1: "forest 2 ?L1 None = Some [FolderItem ''Dev'' [LinkItem ''A'' ''http://a'' None None]]"
    by (simp add: eval_nat_numeral linkOf_def)
  have w1: "wellFormed [FolderItem ''Dev'' [LinkItem ''A'' ''http://a'' None None]]"
    by (simp add: plain_def plainAttr_def)
  have 1: "parseBookmarksHTML exampleIds modelParser (the (exportToHTML 2 ?L1)) =
      \<lparr>bookmarks = [?A\<lparr>b_id := ''xx'', folder := Some ''x''\<rparr>],
       folders = [\<lparr>f_id = ''x'', f_name = ''Dev'', parentId = None\<rparr>]\<rparr>"
    unfolding parse_export_value [OF f1 w1] by (simp add: exampleIds_def)
  let ?C = "\<lparr>b_id = ''b1'', title = ''A'', url = ''http://a'', addDate = Some [], icon = None,
             tags = None, folder = None\<rparr>"
  let ?L2 = "\<lparr>bookmarks = [?C], folders = []\<rparr>"
  let ?L2' = "\<lparr>bookmarks = [?C\<lparr>addDate := None\<rparr>], folders = []\<rparr>"
  have e2: "exportToHTML 1 ?L2 = exportToHTML 1 ?L2'"
    by (simp add: exportToHTML_def renderBookmark_def)
  have f2: "forest 1 ?L2' None = Some [LinkItem ''A'' ''http://a'' None None]"
    by (simp add: linkOf_def)
  have w2: "wellFormed [LinkItem ''A'' ''http://a'' None None]"
    by (simp add: plain_def plainAttr_def)
  have 2: "parseBookmarksHTML exampleIds modelParser (the (exportToHTML 1 ?L2)) =
      \<lparr>bookmarks = [?C\<lparr>b_id := ''x'', addDate := None\<rparr>], folders = []\<rparr>"
    unfolding e2 parse_export_value [OF f2 w2] by (simp add: exampleIds_def)
  let ?D = "\<lparr>b_id = ''b1'', title = [CHR ''a'', CHR 0x0D, CHR ''b''], url = ''http://a'',
             addDate = None, icon = None, tags = None, folder = None\<rparr>"
  let ?L3 = "\<lparr>bookmarks = [?D], folders = []\<rparr>"
  let ?L3' = "\<lparr>bookmarks = [?D\<lparr>title := [CHR ''a'', CHR 0x0A, CHR ''b'']\<rparr>], folders = []\<rparr>"
  have e3: "normalizeNewlines (the (exportToHTML 1 ?L3)) = normalizeNewlines (the (exportToHTML 1 ?L3'))"
    by (simp add: exportToHTML_def renderBookmark_def htmlHeader_def htmlFooter_def
        escapeHtml_def replaceAll_def eval_nat_numeral)
  have f3: "forest 1 ?L3' None = Some [LinkItem [CHR ''a'', CHR 0x0A, CHR ''b''] ''http://a'' None None]"
    by (simp add: linkOf_def)
  have w3: "wellFormed [LinkItem [CHR ''a'', CHR 0x0A, CHR ''b''] ''http://a'' None None]"
    by (simp add: plain_def plainAttr_def)
  have 3: "parseBookmarksHTML exampleIds modelParser (the (exportToHTML 1 ?L3)) =
      \<lparr>bookmarks = [?D\<lparr>b_id := ''x'', title := [CHR ''a'', CHR 0x0A, CHR ''b'']\<rparr>], folders = []\<rparr>"
    unfolding parseBookmarksHTML_same_document [OF modelParser_normalized [OF e3]]
      parse_export_value [OF f3 w3]
    by (simp add: exampleIds_def)
  let ?N = "[LinkItem [CHR ''a'', CHR 0x00, CHR ''b''] ''http://a'' None None]"
  let ?out = "htmlHeader @ renderForest 4 ?N @ htmlFooter"
  let ?L4 = "\<lparr>bookmarks =
           [\<lparr>b_id = ''b1'', title = [CHR ''a'', CHR 0x00, CHR ''b''], url = ''http://a'',
             addDate = None, icon = None, tags = None, folder = None\<rparr>],
         folders = []\<rparr>"
  have e4: "exportToHTML 1 ?L4 = Some ?out"
    by (simp add: exportToHTML_forest linkOf_def)
  have n4: "normalizeNewlines ?out = ?out"
    by (rule normalizeNewlines_plain)
       (simp add: htmlHeader_def htmlFooter_def renderAttribute_def escapeHtml_def replaceAll_def)
  have "tokenize (renderForest 4 ?N @ htmlFooter)
     = Some (tokForest 4 ?N @ [EndTag ''dl'', StartTag ''p'' []])"
    using tokenize_htmlFooter
    by (simp add: scan_defs attrValue.simps escapeHtml_def replaceAll_def renderAttribute_def
        domAttribute_def addAttr_def eval_nat_numeral)
  from tokenize_htmlHeader [OF this]
  have t4: "tokenize ?out = Some (headerTokens @ tokForest 4 ?N @ [EndTag ''dl'', StartTag ''p'' []])"
    by simp
  have r4: "foldl step (Some (BeforeHead, []))
      (headerTokens @ tokForest 4 ?N @ [EndTag ''dl'', StartTag ''p'' []])
     = Some (InBody,
       [Frame ''p'' [] [],
        Frame ''body'' []
          [domList 4 [] [LinkItem ''ab'' ''http://a'' None None], TextNode [CHR 0x0A],
           Element ''h1'' [] [TextNode ''Bookmarks'']],
        Frame ''html'' [] [headElement]])"
    unfolding foldl_append step_headerTokens
    by (simp add: step_def inBody_def inLeaf_def leafOpen_def headings_def closeP_def push_def
        bodyFrames_def domList_def linkElement_def textNodes_def domAttribute_def eval_nat_numeral)
  have "parseHtml ?out = Some (document [LinkItem ''ab'' ''http://a'' None None])"
    unfolding parseHtml_def n4 t4 option.case r4
    by (simp add: endOfFile_def document_def headElement_def)
  then have m4: "modelParser ?out = document [LinkItem ''ab'' ''http://a'' None None]"
    by (simp add: modelParser_def)
  have w4: "wellFormed [LinkItem ''ab'' ''http://a'' None None]"
    by (simp add: plain_def plainAttr_def)
  have 4: "parseBookmarksHTML exampleIds modelParser (the (exportToHTML 1 ?L4)) =
      \<lparr>bookmarks =
        [\<lparr>b_id = ''x'', title = ''ab'', url = ''http://a'',
          addDate = None, icon = None, tags = None, folder = None\<rparr>],
      folders = []\<rparr>"
    unfolding e4 option.sel
      parseBookmarksHTML_document [where parseFromString = modelParser and html = ?out, OF w4 m4]
    by (simp add: exampleIds_def)
  let ?A2 = "\<lparr>b_id = ''b1'', title = ''A'', url = ''http://a'', addDate = None, icon = None,
                tags = None, folder = Some ''f1''\<rparr>"
  let ?B2 = "\<lparr>b_id = ''b2'', title = ''B'', url = ''http://b'', addDate = None, icon = None,
                tags = None, folder = Some ''f2''\<rparr>"
  let ?L5 = "\<lparr>bookmarks = [?A2, ?B2],
            folders = [\<lparr>f_id = ''f1'', f_name = ''Dev'', parentId = None\<rparr>,
                       \<lparr>f_id = ''f2'', f_name = ''Ops'', parentId = None\<rparr>]\<rparr>"
  have f5: "forest 2 ?L5 None =
      Some [FolderItem ''Dev'' [LinkItem ''A'' ''http://a'' None None],
            FolderItem ''Ops'' [LinkItem ''B'' ''http://b'' None None]]"
    by (simp add: eval_nat_numeral linkOf_def)
  have w5: "wellFormed [FolderItem ''Dev'' [LinkItem ''A'' ''http://a'' None None],
            FolderItem ''Ops'' [LinkItem ''B'' ''http://b'' None None]]"
    by (simp add: plain_def plainAttr_def)
  have 5: "forest 2 (parseBookmarksHTML sameId modelParser (the (exportToHTML 2 ?L5))) None
   = Some [FolderItem ''Dev'' [LinkItem ''A'' ''http://a'' None None, LinkItem ''B'' ''http://b'' None None],
           FolderItem ''Ops'' [LinkItem ''A'' ''http://a'' None None, LinkItem ''B'' ''http://b'' None None]]"
    unfolding parse_export_value [OF f5 w5]
    by (simp add: sameId_def eval_nat_numeral linkOf_def)
  show ?thesis using 1 2 3 4 5 by simp
qed

section \<open>Properties of the operations on the store\<close>

text \<open>
  \<open>unchanged s s'\<close>: every address that was allocated in \<open>s\<close> holds in \<open>s'\<close> what it
  held in \<open>s\<close>. In a well-formed store only addresses below \<open>free\<close> hold an object.
  \<open>readLibrary s l\<close> is the library value found at the address \<open>l\<close>: the bookmarks
  and folders that its two arrays point to, with all their fields.
\<close>

definition unchanged :: "Store \<Rightarrow> Store \<Rightarrow> bool" where
  "unchanged s s' \<longleftrightarrow> free s \<le> free s' \<and> (\<forall>a < free s. cells s' a = cells s a)"

definition wfStore :: "Store \<Rightarrow> bool" where
  "wfStore s \<longleftrightarrow> (\<forall>a. cells s a \<noteq> None \<longrightarrow> a < free s)"

definition readBookmark :: "Store \<Rightarrow> addr \<Rightarrow> Bookmark option" where
  "readBookmark s r = (case cells s r of Some (BookmarkObj b) \<Rightarrow> Some b | _ \<Rightarrow> None)"

definition readFolder :: "Store \<Rightarrow> addr \<Rightarrow> Folder option" where
  "readFolder s r = (case cells s r of Some (FolderObj f) \<Rightarrow> Some f | _ \<Rightarrow> None)"

definition readArray :: "Store \<Rightarrow> addr \<Rightarrow> addr list option" where
  "readArray s r = (case cells s r of Some (ArrayObj rs) \<Rightarrow> Some rs | _ \<Rightarrow> None)"

definition readLibrary :: "Store \<Rightarrow> addr \<Rightarrow> BookmarkLibrary option" where
  "readLibrary s l =
     (case cells s l of
        Some (LibraryObj bookmarksAt foldersAt) \<Rightarrow>
          (case (readArray s bookmarksAt, readArray s foldersAt) of
             (Some bs, Some fs) \<Rightarrow>
               (case (those (map (readBookmark s) bs), those (map (readFolder s) fs)) of
                  (Some bl, Some fl) \<Rightarrow> Some \<lparr>bookmarks = bl, folders = fl\<rparr>
                | _ \<Rightarrow> None)
           | _ \<Rightarrow> None)
      | _ \<Rightarrow> None)"

text \<open>For the example: a store that holds one library, of one bookmark and no folder.\<close>

definition exampleStore :: Store where
  "exampleStore =
     \<lparr>cells = [0 \<mapsto> BookmarkObj \<lparr>b_id = ''b1'', title = ''T'', url = ''u'', addDate = None,
                                      icon = None, tags = None, folder = None\<rparr>,
               1 \<mapsto> ArrayObj [0],
               2 \<mapsto> ArrayObj [],
               3 \<mapsto> LibraryObj 1 2],
      free = 4\<rparr>"

definition exampleProposal :: Proposal where
  "exampleProposal =
     \<lparr>p_folders = [\<lparr>path = ''X'', description = []\<rparr>],
      assignments = [\<lparr>bookmarkId = ''b1'', folderPath = ''X''\<rparr>], reasoning = []\<rparr>"

lemma unchanged_refl [simp]: "unchanged s s"
  by (simp add: unchanged_def)

lemma unchanged_alloc:
  "unchanged s0 s \<Longrightarrow> alloc v s = (a, s') \<Longrightarrow> unchanged s0 s' \<and> free s0 \<le> a"
  by (auto simp: unchanged_def alloc_def)

lemma unchanged_assign:
  "unchanged s0 s \<Longrightarrow> free s0 \<le> a \<Longrightarrow> unchanged s0 (assign a v s)"
  by (auto simp: unchanged_def assign_def)

lemma unchanged_alloc_assign:
  "unchanged s0 s \<Longrightarrow> free s0 \<le> t \<Longrightarrow> alloc v s = (a, s1) \<Longrightarrow>
   unchanged s0 (assign t w s1)"
  by (auto dest: unchanged_alloc intro: unchanged_assign)

lemma resolvePartS_unchanged:
  assumes "unchanged s0 (snd (snd (fst acc)))" "free s0 \<le> nf"
  shows "unchanged s0 (snd (snd (fst (resolvePartS rnd nf acc part))))"
proof -
  obtain pm n s cpid cp where acc: "acc = ((pm, n, s), cpid, cp)"
    by (cases acc) auto
  define k where "k = (if cp \<noteq> [] then cp @ ''/'' @ part else part)"
  obtain a s1 where al: "alloc (FolderObj \<lparr>f_id = rnd n, f_name = part, parentId = cpid\<rparr>) s = (a, s1)"
    by (cases "alloc (FolderObj \<lparr>f_id = rnd n, f_name = part, parentId = cpid\<rparr>) s")
  have u: "unchanged s0 (assign nf (ArrayObj (arrayAt s1 nf @ [a])) s1)"
    using assms acc al by (intro unchanged_alloc_assign [where s = s]) simp_all
  have "fst (resolvePartS rnd nf acc part) =
          (if pm k = None
           then (pm(k \<mapsto> rnd n), Suc n, assign nf (ArrayObj (arrayAt s1 nf @ [a])) s1)
           else (pm, n, s))"
    unfolding resolvePartS_def acc k_def using al by (simp add: Let_def)
  with u assms(1) acc show ?thesis by simp
qed

lemma resolvePartsS_unchanged:
  assumes "unchanged s0 (snd (snd (fst acc)))" "free s0 \<le> nf"
  shows "unchanged s0 (snd (snd (fst (foldl (resolvePartS rnd nf) acc parts))))"
  using assms by (induction parts arbitrary: acc) (simp_all add: resolvePartS_unchanged)

lemma resolvePathS_unchanged:
  assumes "unchanged s0 (snd (snd st))" "free s0 \<le> nf"
  shows "unchanged s0 (snd (snd (resolvePathS rnd nf st p)))"
  unfolding resolvePathS_def using assms by (intro resolvePartsS_unchanged) simp_all

lemma resolvePathsS_unchanged:
  assumes "unchanged s0 (snd (snd st))" "free s0 \<le> nf"
  shows "unchanged s0 (snd (snd (foldl (resolvePathS rnd nf) st ps)))"
  using assms by (induction ps arbitrary: st) (simp_all add: resolvePathS_unchanged)

lemma applyAssignmentS_unchanged:
  assumes "unchanged s0 s" "free s0 \<le> ub"
  shows "unchanged s0 (applyAssignmentS pm ub s a)"
proof -
  have "unchanged s0 (assign ub (ArrayObj ((arrayAt s1 ub)[i := c])) s1)"
    if "alloc v s = (c, s1)" for v c s1 i
    using unchanged_alloc [OF assms(1) that] assms(2) by (auto intro: unchanged_assign)
  then show ?thesis
    using assms(1)
    by (auto simp: applyAssignmentS_def Let_def split: option.splits Obj.splits prod.splits)
qed

lemma applyAssignmentsS_unchanged:
  assumes "unchanged s0 s" "free s0 \<le> ub"
  shows "unchanged s0 (foldl (applyAssignmentS pm ub) s as)"
  using assms by (induction as arbitrary: s) (auto intro: applyAssignmentS_unchanged)

lemma moveAll_unchanged:
  "unchanged s0 s \<Longrightarrow> unchanged s0 (snd (moveAll ids t rs s))"
proof (induction rs arbitrary: s)
  case Nil
  then show ?case by simp
next
  case (Cons r rs)
  obtain r' s1 where st: "(case cells s r of
                        Some (BookmarkObj b) \<Rightarrow>
                          if b_id b \<in> set ids
                          then alloc (BookmarkObj (b\<lparr>folder := Some t\<rparr>)) s
                          else (r, s)
                      | _ \<Rightarrow> (r, s)) = (r', s1)"
    by (cases "(case cells s r of
                        Some (BookmarkObj b) \<Rightarrow>
                          if b_id b \<in> set ids
                          then alloc (BookmarkObj (b\<lparr>folder := Some t\<rparr>)) s
                          else (r, s)
                      | _ \<Rightarrow> (r, s))")
  have "unchanged s0 s1"
    using st Cons.prems
    by (auto split: option.splits Obj.splits if_splits dest: unchanged_alloc)
  moreover have "snd (moveAll ids t (r # rs) s) = snd (moveAll ids t rs s1)"
    using st by (simp add: Let_def split: prod.splits)
  ultimately show ?case using Cons.IH by simp
qed

lemma applySuggestionS_unchanged:
  assumes "applySuggestionS rnd suggestion library s = (result, s')"
  shows "unchanged s s'"
proof (cases "\<exists>sg l ba fa. suggestion = Some sg \<and> library = Some l \<and> cells s l = Some (LibraryObj ba fa)")
  case False
  with assms have "s' = s"
    by (auto simp: applySuggestionS_def split: option.splits Obj.splits)
  then show ?thesis by simp
next
  case True
  then obtain sg l ba fa where c: "suggestion = Some sg" "library = Some l"
    "cells s l = Some (LibraryObj ba fa)" by blast
  obtain nf s1 where a1: "alloc (ArrayObj []) s = (nf, s1)" by (cases "alloc (ArrayObj []) s")
  obtain ub s2 where a2: "alloc (ArrayObj (arrayAt s1 ba)) s1 = (ub, s2)"
    by (cases "alloc (ArrayObj (arrayAt s1 ba)) s1")
  obtain pm n s3 where f3: "foldl (resolvePathS rnd nf) (Map.empty, 0, s2) (map path (p_folders sg)) = (pm, n, s3)"
    by (cases "foldl (resolvePathS rnd nf) (Map.empty, 0, s2) (map path (p_folders sg))")
  let ?s4 = "foldl (applyAssignmentS pm ub) s3 (assignments sg)"
  obtain res s5 where a5: "alloc (LibraryObj ub nf) ?s4 = (res, s5)"
    by (cases "alloc (LibraryObj ub nf) ?s4")
  have s': "s' = s5"
    using assms c a1 a2 f3 a5 by (simp add: applySuggestionS_def Let_def)
  from unchanged_alloc [OF unchanged_refl a1] have u1: "unchanged s s1" "free s \<le> nf" by simp_all
  from unchanged_alloc [OF u1(1) a2] have u2: "unchanged s s2" "free s \<le> ub" by simp_all
  have "unchanged s (snd (snd (foldl (resolvePathS rnd nf) (Map.empty, 0, s2) (map path (p_folders sg)))))"
    using u2(1) u1(2) by (intro resolvePathsS_unchanged) simp_all
  then have u3: "unchanged s s3" using f3 by simp
  have u4: "unchanged s ?s4" using u3 u2(2) by (rule applyAssignmentsS_unchanged)
  from unchanged_alloc [OF u4 a5] s' show ?thesis by simp
qed

lemma handleCommandS_unchanged:
  assumes "handleCommandS newId action prev s = (result, s')"
  shows "unchanged s s'"
proof (cases "\<exists>p ba fa. prev = Some p \<and> cells s p = Some (LibraryObj ba fa)")
  case False
  with assms have "s' = s"
    by (auto simp: handleCommandS_def split: option.splits Obj.splits)
  then show ?thesis by simp
next
  case True
  then obtain p ba fa where c: "prev = Some p" "cells s p = Some (LibraryObj ba fa)" by blast
  obtain nxt s1 where a1: "alloc (LibraryObj ba fa) s = (nxt, s1)"
    by (cases "alloc (LibraryObj ba fa) s")
  from unchanged_alloc [OF unchanged_refl a1] have u1: "unchanged s s1" "free s \<le> nxt" by simp_all
  show ?thesis
  proof (cases action)
    case (MoveBookmarks ids t)
    obtain refs s2 where m: "moveAll ids t (arrayAt s1 ba) s1 = (refs, s2)"
      by (cases "moveAll ids t (arrayAt s1 ba) s1")
    obtain mapped s3 where a3: "alloc (ArrayObj refs) s2 = (mapped, s3)"
      by (cases "alloc (ArrayObj refs) s2")
    have "unchanged s s2" using moveAll_unchanged [OF u1(1), of ids t "arrayAt s1 ba"] m by simp
    from unchanged_alloc [OF this a3] have "unchanged s s3" by simp
    then have "unchanged s (assign nxt (LibraryObj mapped fa) s3)"
      using u1(2) by (rule unchanged_assign)
    moreover have "s' = assign nxt (LibraryObj mapped fa) s3"
      using assms c a1 MoveBookmarks m a3 by (simp add: handleCommandS_def Let_def)
    ultimately show ?thesis by simp
  next
    case (CreateFolder name parent)
    obtain nf s2 where a2: "alloc (FolderObj \<lparr>f_id = newId, f_name = name, parentId = parent\<rparr>) s1 = (nf, s2)"
      by (cases "alloc (FolderObj \<lparr>f_id = newId, f_name = name, parentId = parent\<rparr>) s1")
    obtain ap s3 where a3: "alloc (ArrayObj (arrayAt s2 fa @ [nf])) s2 = (ap, s3)"
      by (cases "alloc (ArrayObj (arrayAt s2 fa @ [nf])) s2")
    from unchanged_alloc [OF u1(1) a2] have "unchanged s s2" by simp
    from unchanged_alloc [OF this a3] have "unchanged s s3" by simp
    then have "unchanged s (assign nxt (LibraryObj ba ap) s3)"
      using u1(2) by (rule unchanged_assign)
    moreover have "s' = assign nxt (LibraryObj ba ap) s3"
      using assms c a1 CreateFolder a2 a3 by (simp add: handleCommandS_def Let_def)
    ultimately show ?thesis by simp
  qed
qed

lemma readLibrary_SomeD:
  assumes "readLibrary s l = Some L"
  shows "\<exists>ba fa bs fs bl fl. cells s l = Some (LibraryObj ba fa) \<and>
           readArray s ba = Some bs \<and> readArray s fa = Some fs \<and>
           those (map (readBookmark s) bs) = Some bl \<and> those (map (readFolder s) fs) = Some fl \<and>
           L = \<lparr>bookmarks = bl, folders = fl\<rparr>"
proof (cases "cells s l")
  case None
  with assms show ?thesis by (simp add: readLibrary_def)
next
  case (Some ob)
  show ?thesis
  proof (cases ob)
    case (LibraryObj ba fa)
    with Some assms show ?thesis
      by (cases "readArray s ba"; cases "readArray s fa";
          cases "those (map (readBookmark s) (the (readArray s ba)))";
          cases "those (map (readFolder s) (the (readArray s fa)))")
        (simp_all add: readLibrary_def)
  qed (use Some assms in \<open>simp_all add: readLibrary_def\<close>)
qed

lemma readLibrary_SomeI:
  assumes "cells s l = Some (LibraryObj ba fa)"
    "readArray s ba = Some bs" "readArray s fa = Some fs"
    "those (map (readBookmark s) bs) = Some bl" "those (map (readFolder s) fs) = Some fl"
  shows "readLibrary s l = Some \<lparr>bookmarks = bl, folders = fl\<rparr>"
  using assms by (simp add: readLibrary_def)

lemma readLibrary_unchanged:
  assumes wf: "wfStore s" and u: "unchanged s s'" and r: "readLibrary s l = Some L"
  shows "readLibrary s' l = Some L"
proof -
  have same: "cells s' a = cells s a" if "cells s a \<noteq> None" for a
    using wf u that by (auto simp: wfStore_def unchanged_def)
  from readLibrary_SomeD [OF r] obtain ba fa bs fs bl fl
    where l: "cells s l = Some (LibraryObj ba fa)"
      and arr: "readArray s ba = Some bs" "readArray s fa = Some fs"
      and rd: "those (map (readBookmark s) bs) = Some bl" "those (map (readFolder s) fs) = Some fl"
      and L: "L = \<lparr>bookmarks = bl, folders = fl\<rparr>"
    by blast
  have mb: "map (readBookmark s') bs = map (readBookmark s) bs"
  proof (rule map_cong [OF refl])
    fix x assume "x \<in> set bs"
    from those_map_SomeD [OF rd(1) this] have "cells s x \<noteq> None"
      by (auto simp: readBookmark_def split: option.splits)
    from same [OF this] show "readBookmark s' x = readBookmark s x" by (simp add: readBookmark_def)
  qed
  have mf: "map (readFolder s') fs = map (readFolder s) fs"
  proof (rule map_cong [OF refl])
    fix x assume "x \<in> set fs"
    from those_map_SomeD [OF rd(2) this] have "cells s x \<noteq> None"
      by (auto simp: readFolder_def split: option.splits)
    from same [OF this] show "readFolder s' x = readFolder s x" by (simp add: readFolder_def)
  qed
  have "cells s ba \<noteq> None" "cells s fa \<noteq> None"
    using arr by (auto simp: readArray_def split: option.splits)
  then have arr': "readArray s' ba = Some bs" "readArray s' fa = Some fs"
    using arr same by (simp_all add: readArray_def)
  have "cells s' l = Some (LibraryObj ba fa)" using same l by simp
  from readLibrary_SomeI [OF this arr'] rd mb mf L show ?thesis by simp
qed

lemma applySuggestionS_result:
  assumes "cells s l = Some (LibraryObj ba fa)"
    and "applySuggestionS rnd (Some sg) (Some l) s = (res, s')"
  shows "\<exists>r. res = Some r \<and> free s \<le> r"
proof -
  obtain nf s1 where a1: "alloc (ArrayObj []) s = (nf, s1)" by (cases "alloc (ArrayObj []) s")
  obtain ub s2 where a2: "alloc (ArrayObj (arrayAt s1 ba)) s1 = (ub, s2)"
    by (cases "alloc (ArrayObj (arrayAt s1 ba)) s1")
  obtain pm n s3 where f3: "foldl (resolvePathS rnd nf) (Map.empty, 0, s2) (map path (p_folders sg)) = (pm, n, s3)"
    by (cases "foldl (resolvePathS rnd nf) (Map.empty, 0, s2) (map path (p_folders sg))")
  let ?s4 = "foldl (applyAssignmentS pm ub) s3 (assignments sg)"
  obtain r s5 where a5: "alloc (LibraryObj ub nf) ?s4 = (r, s5)"
    by (cases "alloc (LibraryObj ub nf) ?s4")
  have res: "res = Some r" "s' = s5"
    using assms a1 a2 f3 a5 by (simp_all add: applySuggestionS_def Let_def)
  have "unchanged s s5" using applySuggestionS_unchanged [OF assms(2)] res by simp
  moreover have "r = free ?s4" "free s5 = Suc (free ?s4)" using a5 by (auto simp: alloc_def)
  moreover have "unchanged s ?s4"
  proof -
    from unchanged_alloc [OF unchanged_refl a1] have u1: "unchanged s s1" "free s \<le> nf" by simp_all
    from unchanged_alloc [OF u1(1) a2] have u2: "unchanged s s2" "free s \<le> ub" by simp_all
    have "unchanged s (snd (snd (foldl (resolvePathS rnd nf) (Map.empty, 0, s2) (map path (p_folders sg)))))"
      using u2(1) u1(2) by (intro resolvePathsS_unchanged) simp_all
    then have "unchanged s s3" using f3 by simp
    then show ?thesis using u2(2) by (rule applyAssignmentsS_unchanged)
  qed
  ultimately show ?thesis using res by (simp add: unchanged_def)
qed

lemma handleCommandS_result:
  assumes "cells s l = Some (LibraryObj ba fa)"
    and "handleCommandS newId action (Some l) s = (res, s')"
  shows "res = Some (free s)"
proof -
  obtain nxt s1 where a1: "alloc (LibraryObj ba fa) s = (nxt, s1)"
    by (cases "alloc (LibraryObj ba fa) s")
  then have "nxt = free s" by (simp add: alloc_def)
  moreover have "res = Some nxt"
    using assms a1 by (cases action) (simp_all add: handleCommandS_def Let_def split: prod.splits)
  ultimately show ?thesis by simp
qed

text \<open>
  Claim C9. Applying a proposal (\<^verbatim>\<open>applySuggestion\<close>) or an action (the updater of
  \<^verbatim>\<open>handleCommand\<close>) to a library leaves every object that existed before as it was, so
  the library value read at the input address is the same after the operation as
  before, bookmarks, folders and all their fields; and the operation returns the
  address of a library object that did not exist before.
\<close>

theorem operations_do_not_mutate_input:
  assumes "wfStore s" and "readLibrary s l = Some L"
  shows "(\<forall>res s'. applySuggestionS rnd (Some sg) (Some l) s = (res, s') \<longrightarrow>
            unchanged s s' \<and> readLibrary s' l = Some L \<and> (\<exists>r. res = Some r \<and> free s \<le> r)) \<and>
         (\<forall>res s'. handleCommandS newId action (Some l) s = (res, s') \<longrightarrow>
            unchanged s s' \<and> readLibrary s' l = Some L \<and> (\<exists>r. res = Some r \<and> free s \<le> r))"
proof -
  from readLibrary_SomeD [OF assms(2)] obtain ba fa where l: "cells s l = Some (LibraryObj ba fa)"
    by blast
  show ?thesis
  proof (intro conjI allI impI)
    fix res s'
    assume a: "applySuggestionS rnd (Some sg) (Some l) s = (res, s')"
    then show "unchanged s s'" by (rule applySuggestionS_unchanged)
    then show "readLibrary s' l = Some L"
      by (rule readLibrary_unchanged [OF assms(1) _ assms(2)])
    show "\<exists>r. res = Some r \<and> free s \<le> r" using l a by (rule applySuggestionS_result)
  next
    fix res s'
    assume a: "handleCommandS newId action (Some l) s = (res, s')"
    then show "unchanged s s'" by (rule handleCommandS_unchanged)
    then show "readLibrary s' l = Some L"
      by (rule readLibrary_unchanged [OF assms(1) _ assms(2)])
    show "\<exists>r. res = Some r \<and> free s \<le> r" using handleCommandS_result [OF l a] by simp
  qed
qed

text \<open>
  On the example store the proposal puts the bookmark into the new folder \<open>X\<close>, and the
  action moves it to \<open>Dev\<close>: both results are new libraries, at the addresses 8 and 4,
  and the library at the address 3 reads as before.
\<close>

theorem operations_do_not_mutate_input_witness:
  "wfStore exampleStore \<and>
   readLibrary exampleStore 3 =
     Some \<lparr>bookmarks = [\<lparr>b_id = ''b1'', title = ''T'', url = ''u'', addDate = None, icon = None,
                            tags = None, folder = None\<rparr>],
            folders = []\<rparr> \<and>
   (case applySuggestionS exampleIds (Some exampleProposal) (Some 3) exampleStore of
      (res, s') \<Rightarrow> (res, readLibrary s' 3, readLibrary s' 8)) =
     (Some 8,
      Some \<lparr>bookmarks = [\<lparr>b_id = ''b1'', title = ''T'', url = ''u'', addDate = None, icon = None,
                            tags = None, folder = None\<rparr>],
            folders = []\<rparr>,
      Some \<lparr>bookmarks = [\<lparr>b_id = ''b1'', title = ''T'', url = ''u'', addDate = None, icon = None,
                            tags = None, folder = Some ''x''\<rparr>],
            folders = [\<lparr>f_id = ''x'', f_name = ''X'', parentId = None\<rparr>]\<rparr>) \<and>
   (case handleCommandS ''n1'' (MoveBookmarks [''b1''] ''Dev'') (Some 3) exampleStore of
      (res, s') \<Rightarrow> (res, readLibrary s' 3, readLibrary s' 4)) =
     (Some 4,
      Some \<lparr>bookmarks = [\<lparr>b_id = ''b1'', title = ''T'', url = ''u'', addDate = None, icon = None,
                            tags = None, folder = None\<rparr>],
            folders = []\<rparr>,
      Some \<lparr>bookmarks = [\<lparr>b_id = ''b1'', title = ''T'', url = ''u'', addDate = None, icon = None,
                            tags = None, folder = Some ''Dev''\<rparr>],
            folders = []\<rparr>)"
proof -
  let ?L = "\<lparr>bookmarks = [\<lparr>b_id = ''b1'', title = ''T'', url = ''u'', addDate = None, icon = None,
                            tags = None, folder = None\<rparr>],
            folders = []\<rparr>"
  have wf: "wfStore exampleStore"
    by (auto simp: wfStore_def exampleStore_def split: if_splits)
  have rd: "readLibrary exampleStore 3 = Some ?L"
    by (simp add: readLibrary_def readArray_def readBookmark_def readFolder_def exampleStore_def)
  have a: "(case applySuggestionS exampleIds (Some exampleProposal) (Some 3) exampleStore of
      (res, s') \<Rightarrow> (res, readLibrary s' 8)) =
     (Some 8,
      Some \<lparr>bookmarks = [\<lparr>b_id = ''b1'', title = ''T'', url = ''u'', addDate = None, icon = None,
                            tags = None, folder = Some ''x''\<rparr>],
            folders = [\<lparr>f_id = ''x'', f_name = ''X'', parentId = None\<rparr>]\<rparr>)"
    by (simp add: applySuggestionS_def resolvePathS_def resolvePartS_def applyAssignmentS_def
        alloc_def assign_def arrayAt_def exampleStore_def exampleProposal_def exampleIds_def
        readLibrary_def readArray_def readBookmark_def readFolder_def Let_def)
  have h: "(case handleCommandS ''n1'' (MoveBookmarks [''b1''] ''Dev'') (Some 3) exampleStore of
      (res, s') \<Rightarrow> (res, readLibrary s' 4)) =
     (Some 4,
      Some \<lparr>bookmarks = [\<lparr>b_id = ''b1'', title = ''T'', url = ''u'', addDate = None, icon = None,
                            tags = None, folder = Some ''Dev''\<rparr>],
            folders = []\<rparr>)"
    by (simp add: handleCommandS_def alloc_def assign_def arrayAt_def exampleStore_def
        readLibrary_def readArray_def readBookmark_def readFolder_def Let_def)
  from operations_do_not_mutate_input
    [OF wf rd, where rnd = exampleIds and sg = exampleProposal and newId = "''n1''"
       and action = "MoveBookmarks [''b1''] ''Dev''"]
  show ?thesis
    using wf rd a h by (auto split: prod.splits)
qed

end
